theory Spec2Isabelle
  imports Main "HOL-Library.Word"
begin

section \<open>The shared-memory snapshot dump of \<open>scripts/debug-shm.py\<close>\<close>

text \<open>
  The script reads the whole file into a \<open>bytes\<close> object and walks it with an integer
  cursor, printing one line per decoded item. The model below follows that shape:
  \<^item> a buffer is a list of 8-bit words; a cursor is a natural number (the script only ever
    produces cursors from \<open>0\<close>, \<open>32\<close> and additions to them);
  \<^item> every read that Python can refuse (\<open>data[i]\<close> past the end, \<open>struct.unpack\<close> on a
    slice of the wrong size, the timestamp conversion) returns a sum, \<open>Inl\<close> the exception;
  \<^item> a printed line is recorded as the \<open>print\<close> statement that produced it together with
    the values substituted into its f-string; turning numbers into digits is not modelled;
  \<^item> a run is the list of lines printed so far paired with either the exception that
    escaped or the value computed.
\<close>

subsection \<open>Bytes, slices and \<open>struct.unpack\<close>\<close>

type_synonym byte = "8 word"

text \<open>A Python \<open>str\<close> is a sequence of Unicode code points.\<close>

type_synonym pystr = "nat list"

text \<open>
  A \<open>'<f'\<close> field: \<open>struct.unpack\<close> converts the binary32 value to a double. The
  conversion keeps every number, both infinities and every quiet NaN, and turns a
  signalling NaN (exponent all ones, fraction not zero, top fraction bit clear) into the
  quiet NaN with the same payload. The double is recorded as the binary32 pattern it
  stands for, the one \<open>struct.pack('<f', v)\<close> gives back.
\<close>

type_synonym float32 = "32 word"

definition signalling :: "float32 \<Rightarrow> bool" where
  "signalling w =
     (unat w div 2 ^ 23 mod 256 = 255 \<and> unat w mod 2 ^ 23 \<noteq> 0
      \<and> unat w div 2 ^ 22 mod 2 = 0)"

definition widen :: "float32 \<Rightarrow> float32" where
  "widen w = (if signalling w then w + 0x400000 else w)"

datatype exn = IndexError | StructError | ValueError | OverflowError | OSError

text \<open>\<open>data[i]\<close> for a cursor \<open>i \<ge> 0\<close>.\<close>

definition index :: "byte list \<Rightarrow> nat \<Rightarrow> exn + byte" where
  "index data i = (if i < length data then Inr (data ! i) else Inl IndexError)"

text \<open>\<open>data[a:b]\<close> for \<open>0 \<le> a\<close>: a slice is clipped to the buffer and never raises.\<close>

definition bytes_slice :: "byte list \<Rightarrow> nat \<Rightarrow> nat \<Rightarrow> byte list" where
  "bytes_slice data a b = take (b - a) (drop a data)"

fun le_nat :: "byte list \<Rightarrow> nat" where
  "le_nat [] = 0"
| "le_nat (b # bs) = unat b + 256 * le_nat bs"

text \<open>\<open>struct.unpack('<I', s)[0]\<close>, \<open>struct.unpack('<Q', s)[0]\<close> and \<open>struct.unpack('<f', s)[0]\<close>.\<close>

definition unpack_I :: "byte list \<Rightarrow> exn + nat" where
  "unpack_I s = (if length s = 4 then Inr (le_nat s) else Inl StructError)"

definition unpack_Q :: "byte list \<Rightarrow> exn + nat" where
  "unpack_Q s = (if length s = 8 then Inr (le_nat s) else Inl StructError)"

definition unpack_f :: "byte list \<Rightarrow> exn + float32" where
  "unpack_f s = (if length s = 4 then Inr (widen (of_nat (le_nat s))) else Inl StructError)"

subsection \<open>\<open>bytes.decode('utf-8', errors=...)\<close>\<close>

text \<open>
  The codec of the Python runtime, for the two error handlers that never raise. One step
  looks at the sequence starting at the head of the input and returns the code point it
  encodes, or \<open>None\<close> for a malformed sequence, with the number of bytes the step covers:
  an invalid start byte covers one byte, an invalid continuation byte covers the bytes
  before it, and a sequence cut off by the end of the input covers what is left.
  Overlong forms, surrogates and code points above \<open>0x10FFFF\<close> are malformed.
\<close>

datatype errors = Ignore | Replace

definition is_cont :: "byte \<Rightarrow> bool" where
  "is_cont b = (0x80 \<le> unat b \<and> unat b < 0xC0)"

definition utf8_step :: "byte list \<Rightarrow> nat option \<times> nat" where
  "utf8_step s =
     (case s of
        [] \<Rightarrow> (None, 0)
      | b # bs \<Rightarrow>
          (let ch = unat b in
           if ch < 0x80 then (Some ch, 1)
           else if ch < 0xC2 then (None, 1)
           else if ch < 0xE0 then
             (case bs of
                [] \<Rightarrow> (None, 1)
              | b2 # _ \<Rightarrow>
                  if \<not> is_cont b2 then (None, 1)
                  else (Some ((ch - 0xC0) * 64 + (unat b2 - 0x80)), 2))
           else if ch < 0xF0 then
             (case bs of
                [] \<Rightarrow> (None, 1)
              | b2 # r \<Rightarrow>
                  if \<not> is_cont b2 \<or> (if unat b2 < 0xA0 then ch = 0xE0 else ch = 0xED)
                  then (None, 1)
                  else
                    (case r of
                       [] \<Rightarrow> (None, 2)
                     | b3 # _ \<Rightarrow>
                         if \<not> is_cont b3 then (None, 2)
                         else (Some ((ch - 0xE0) * 4096 + (unat b2 - 0x80) * 64
                                     + (unat b3 - 0x80)), 3)))
           else if ch < 0xF5 then
             (case bs of
                [] \<Rightarrow> (None, 1)
              | b2 # r \<Rightarrow>
                  if \<not> is_cont b2 \<or> (if unat b2 < 0x90 then ch = 0xF0 else ch = 0xF4)
                  then (None, 1)
                  else
                    (case r of
                       [] \<Rightarrow> (None, 2)
                     | b3 # r' \<Rightarrow>
                         if \<not> is_cont b3 then (None, 2)
                         else
                           (case r' of
                              [] \<Rightarrow> (None, 3)
                            | b4 # _ \<Rightarrow>
                                if \<not> is_cont b4 then (None, 3)
                                else (Some ((ch - 0xF0) * 262144 + (unat b2 - 0x80) * 4096
                                            + (unat b3 - 0x80) * 64 + (unat b4 - 0x80)), 4))))
           else (None, 1)))"

text \<open>What the handler puts in place of a malformed sequence.\<close>

fun substitute :: "errors \<Rightarrow> pystr" where
  "substitute Ignore = []"
| "substitute Replace = [0xFFFD]"

fun decode_utf8 :: "errors \<Rightarrow> byte list \<Rightarrow> pystr" where
  "decode_utf8 h [] = []"
| "decode_utf8 h (b # bs) =
     (case utf8_step (b # bs) of
        (r, k) \<Rightarrow>
          (case r of Some cp \<Rightarrow> [cp] | None \<Rightarrow> substitute h)
          @ decode_utf8 h (drop (k - 1) bs))"

subsection \<open>\<open>read_string\<close>\<close>

definition read_string :: "byte list \<Rightarrow> nat \<Rightarrow> exn + (pystr option \<times> nat)" where
  "read_string data offset =
     (if offset \<ge> length data then Inr (None, offset)
      else
        (case index data offset of
           Inl e \<Rightarrow> Inl e
         | Inr b \<Rightarrow>
             (let length' = unat b;
                  offset = offset + 1
              in if offset + length' > length data then Inr (None, offset)
                 else
                   (let string = decode_utf8 Ignore (bytes_slice data offset (offset + length'));
                        offset = offset + length'
                    in Inr (Some string, offset)))))"

subsection \<open>Printed lines and runs\<close>

text \<open>
  One constructor per \<open>print\<close> statement of \<open>parse_shared_memory\<close>. \<open>'dt\<close> is the
  \<open>datetime\<close> the timestamp converts to.
\<close>

datatype 'dt line =
    TooSmall
  | Title
  | Rule
  | Version nat
  | Generation nat
  | Timestamp 'dt
  | Blank
  | NoSinkData
  | SinksHeader nat
  | SinkLine pystr nat float32 bool
  | NoAppData
  | AppsHeader nat
  | AppLine pystr pystr bool
  | TotalSize nat
  | ErrorLine exn

text \<open>The text of the lines that have no placeholder.\<close>

fun fixed_text :: "'dt line \<Rightarrow> string option" where
  "fixed_text TooSmall = Some ''File too small to contain valid data''"
| "fixed_text Title = Some ''Shared Memory Cache Debug''"
| "fixed_text Rule = Some ''========================''"
| "fixed_text Blank = Some ''''"
| "fixed_text NoSinkData = Some ''No sink data found''"
| "fixed_text NoAppData = Some ''No app data found''"
| "fixed_text _ = None"

type_synonym ('dt, 'a) run = "'dt line list \<times> (exn + 'a)"

text \<open>\<open>attempt r k\<close>: evaluate \<open>r\<close>; an exception ends the run, a value goes on to \<open>k\<close>.\<close>

definition attempt :: "exn + 'a \<Rightarrow> ('a \<Rightarrow> ('dt, 'b) run) \<Rightarrow> ('dt, 'b) run" where
  "attempt r k = (case r of Inl e \<Rightarrow> ([], Inl e) | Inr v \<Rightarrow> k v)"

text \<open>\<open>emit l k\<close>: print \<open>l\<close>, then go on with \<open>k\<close>.\<close>

definition emit :: "'dt line \<Rightarrow> ('dt, 'a) run \<Rightarrow> ('dt, 'a) run" where
  "emit l k = (l # fst k, snd k)"

text \<open>\<open>after m k\<close>: run \<open>m\<close>; if it ended with a value go on with \<open>k\<close> on that value.\<close>

definition after :: "('dt, 'a) run \<Rightarrow> ('a \<Rightarrow> ('dt, 'b) run) \<Rightarrow> ('dt, 'b) run" where
  "after m k =
     (case snd m of
        Inl e \<Rightarrow> (fst m, Inl e)
      | Inr v \<Rightarrow> (fst m @ fst (k v), snd (k v)))"

definition finish :: "('dt, unit) run" where
  "finish = ([], Inr ())"

subsection \<open>The two counted loops\<close>

text \<open>
  \<open>for i in range(sink_count)\<close>: the first argument counts the iterations left, the
  result is the cursor when the loop is left, by \<open>break\<close> or by exhaustion.
\<close>

fun sink_loop :: "byte list \<Rightarrow> nat \<Rightarrow> nat \<Rightarrow> ('dt, nat) run" where
  "sink_loop data 0 offset = ([], Inr offset)"
| "sink_loop data (Suc n) offset =
     attempt (read_string data offset) (\<lambda>(name, offset).
       case name of
         None \<Rightarrow> ([], Inr offset)
       | Some name \<Rightarrow>
           if offset + 9 > length data then ([], Inr offset)
           else
             attempt (unpack_I (bytes_slice data offset (offset + 4))) (\<lambda>sink_id.
             attempt (unpack_f (bytes_slice data (offset + 4) (offset + 8))) (\<lambda>volume.
             attempt (index data (offset + 8)) (\<lambda>flag.
             emit (SinkLine name sink_id volume (flag = 1))
               (sink_loop data n (offset + 9))))))"

fun app_loop :: "byte list \<Rightarrow> nat \<Rightarrow> nat \<Rightarrow> ('dt, nat) run" where
  "app_loop data 0 offset = ([], Inr offset)"
| "app_loop data (Suc n) offset =
     attempt (read_string data offset) (\<lambda>(name, offset).
       case name of
         None \<Rightarrow> ([], Inr offset)
       | Some name \<Rightarrow>
           attempt (read_string data offset) (\<lambda>(current_sink, offset).
             case current_sink of
               None \<Rightarrow> ([], Inr offset)
             | Some current_sink \<Rightarrow>
                 if offset \<ge> length data then ([], Inr offset)
                 else
                   attempt (index data offset) (\<lambda>flag.
                   emit (AppLine name current_sink (flag = 1))
                     (app_loop data n (offset + 1)))))"

subsection \<open>\<open>parse_shared_memory\<close>\<close>

text \<open>
  \<open>fromtimestamp t\<close> stands for \<open>datetime.fromtimestamp(t/1000)\<close>; which instants it
  accepts depends on the platform and the local time zone, so it is a parameter.
  The body of the \<open>try\<close> block from the length test on; \<open>data\<close> is what \<open>f.read()\<close>
  returned.
\<close>

definition apps_section :: "byte list \<Rightarrow> nat \<Rightarrow> ('dt, unit) run" where
  "apps_section data offset =
     (if offset + 4 > length data then emit NoAppData finish
      else
        attempt (unpack_I (bytes_slice data offset (offset + 4))) (\<lambda>app_count.
        emit (AppsHeader app_count)
          (after (app_loop data app_count (offset + 4)) (\<lambda>offset.
           emit Blank (emit (TotalSize (length data)) finish)))))"

definition sinks_section :: "byte list \<Rightarrow> nat \<Rightarrow> ('dt, unit) run" where
  "sinks_section data offset =
     (if offset + 4 > length data then emit NoSinkData finish
      else
        attempt (unpack_I (bytes_slice data offset (offset + 4))) (\<lambda>sink_count.
        emit (SinksHeader sink_count)
          (after (sink_loop data sink_count (offset + 4)) (\<lambda>offset.
           emit Blank (apps_section data offset)))))"

definition try_body :: "(nat \<Rightarrow> exn + 'dt) \<Rightarrow> byte list \<Rightarrow> ('dt, unit) run" where
  "try_body fromtimestamp data =
     (if length data < 32 then emit TooSmall finish
      else
        attempt (unpack_I (bytes_slice data 0 4)) (\<lambda>version.
        attempt (unpack_Q (bytes_slice data 4 12)) (\<lambda>generation.
        attempt (unpack_Q (bytes_slice data 12 20)) (\<lambda>timestamp.
        emit Title (emit Rule (emit (Version version) (emit (Generation generation)
          (attempt (fromtimestamp timestamp) (\<lambda>dt.
           emit (Timestamp dt) (emit Blank (sinks_section data 32)))))))))))"

text \<open>
  The whole function on the bytes read: what the \<open>try\<close> block printed, followed by the
  line of the \<open>except Exception\<close> handler when an exception escaped the block.
\<close>

definition parse_shared_memory :: "(nat \<Rightarrow> exn + 'dt) \<Rightarrow> byte list \<Rightarrow> 'dt line list" where
  "parse_shared_memory fromtimestamp data =
     (case try_body fromtimestamp data of
        (out, Inl e) \<Rightarrow> out @ [ErrorLine e]
      | (out, Inr _) \<Rightarrow> out)"

subsection \<open>A concrete timestamp conversion\<close>

text \<open>
  \<open>datetime.fromtimestamp\<close> on a host with a 64-bit \<open>time_t\<close> whose local zone is UTC:
  \<open>datetime\<close> ends with the year 9999, whose last second is 253402300799, and a later
  instant raises \<open>ValueError\<close> (year out of range). The \<open>datetime\<close> is kept as the
  millisecond count it was made from.
\<close>

definition utc_fromtimestamp :: "nat \<Rightarrow> exn + nat" where
  "utc_fromtimestamp t = (if t div 1000 \<le> 253402300799 then Inr t else Inl ValueError)"

subsection \<open>The layout of a snapshot\<close>

text \<open>
  Modelled from the spec: the producer of the snapshot is not part of this source. The
  records and encoders below write out section 3 of the specification (header, sink and
  app records, counts and single-byte length prefixes); the decoder above is compared
  against them.
\<close>

fun le_bytes :: "nat \<Rightarrow> nat \<Rightarrow> byte list" where
  "le_bytes 0 v = []"
| "le_bytes (Suc k) v = of_nat (v mod 256) # le_bytes k (v div 256)"

definition pack_I :: "nat \<Rightarrow> byte list" where
  "pack_I v = le_bytes 4 v"

definition pack_Q :: "nat \<Rightarrow> byte list" where
  "pack_Q v = le_bytes 8 v"

definition pack_f :: "float32 \<Rightarrow> byte list" where
  "pack_f w = le_bytes 4 (unat w)"

definition pack_bool :: "bool \<Rightarrow> byte list" where
  "pack_bool b = [if b then 1 else 0]"

text \<open>A code point that UTF-8 can carry: below \<open>0x110000\<close> and not a surrogate.\<close>

definition scalar :: "nat \<Rightarrow> bool" where
  "scalar cp = (cp < 0xD800 \<or> (0xE000 \<le> cp \<and> cp < 0x110000))"

definition encode_cp :: "nat \<Rightarrow> byte list" where
  "encode_cp cp =
     (if cp < 0x80 then [of_nat cp]
      else if cp < 0x800 then [of_nat (0xC0 + cp div 64), of_nat (0x80 + cp mod 64)]
      else if cp < 0x10000 then
        [of_nat (0xE0 + cp div 4096), of_nat (0x80 + cp div 64 mod 64),
         of_nat (0x80 + cp mod 64)]
      else
        [of_nat (0xF0 + cp div 262144), of_nat (0x80 + cp div 4096 mod 64),
         of_nat (0x80 + cp div 64 mod 64), of_nat (0x80 + cp mod 64)])"

definition encode_utf8 :: "pystr \<Rightarrow> byte list" where
  "encode_utf8 s = concat (map encode_cp s)"

definition encode_string :: "pystr \<Rightarrow> byte list" where
  "encode_string s = of_nat (length (encode_utf8 s)) # encode_utf8 s"

definition wf_string :: "pystr \<Rightarrow> bool" where
  "wf_string s = (list_all scalar s \<and> length (encode_utf8 s) \<le> 255)"

record header =
  version :: nat
  generation :: nat
  timestamp_ms :: nat
  reserved :: "byte list"

record sink =
  sink_name :: pystr
  sink_id :: nat
  sink_volume :: float32
  sink_muted :: bool

record app =
  app_name :: pystr
  app_current_sink :: pystr
  app_active :: bool

definition wf_header :: "header \<Rightarrow> bool" where
  "wf_header h =
     (version h < 2 ^ 32 \<and> generation h < 2 ^ 64 \<and> timestamp_ms h < 2 ^ 64
      \<and> length (reserved h) = 12)"

definition wf_sink :: "sink \<Rightarrow> bool" where
  "wf_sink s = (wf_string (sink_name s) \<and> sink_id s < 2 ^ 32)"

definition wf_app :: "app \<Rightarrow> bool" where
  "wf_app a = (wf_string (app_name a) \<and> wf_string (app_current_sink a))"

definition encode_header :: "header \<Rightarrow> byte list" where
  "encode_header h =
     pack_I (version h) @ pack_Q (generation h) @ pack_Q (timestamp_ms h) @ reserved h"

definition encode_sink :: "sink \<Rightarrow> byte list" where
  "encode_sink s =
     encode_string (sink_name s) @ pack_I (sink_id s) @ pack_f (sink_volume s)
     @ pack_bool (sink_muted s)"

definition encode_app :: "app \<Rightarrow> byte list" where
  "encode_app a =
     encode_string (app_name a) @ encode_string (app_current_sink a)
     @ pack_bool (app_active a)"

definition encode_sinks :: "sink list \<Rightarrow> byte list" where
  "encode_sinks sinks = concat (map encode_sink sinks)"

definition encode_apps :: "app list \<Rightarrow> byte list" where
  "encode_apps apps = concat (map encode_app apps)"

definition encode_snapshot :: "header \<Rightarrow> sink list \<Rightarrow> app list \<Rightarrow> byte list" where
  "encode_snapshot h sinks apps =
     encode_header h @ pack_I (length sinks) @ encode_sinks sinks
     @ pack_I (length apps) @ encode_apps apps"

definition wf_snapshot :: "header \<Rightarrow> sink list \<Rightarrow> app list \<Rightarrow> bool" where
  "wf_snapshot h sinks apps =
     (wf_header h \<and> length sinks < 2 ^ 32 \<and> list_all wf_sink sinks
      \<and> length apps < 2 ^ 32 \<and> list_all wf_app apps)"

text \<open>The lines a decoded record is printed as.\<close>

definition sink_line :: "sink \<Rightarrow> 'dt line" where
  "sink_line s = SinkLine (sink_name s) (sink_id s) (sink_volume s) (sink_muted s)"

text \<open>
  A sink record as the run holds it once read: the volume converted the way
  \<open>struct.unpack\<close> converts it, every other field as written.
\<close>

definition held :: "sink \<Rightarrow> sink" where
  "held s = s\<lparr>sink_volume := widen (sink_volume s)\<rparr>"

definition app_line :: "app \<Rightarrow> 'dt line" where
  "app_line a = AppLine (app_name a) (app_current_sink a) (app_active a)"

definition header_lines :: "header \<Rightarrow> 'dt \<Rightarrow> 'dt line list" where
  "header_lines h dt =
     [Title, Rule, Version (version h), Generation (generation h), Timestamp dt, Blank]"

text \<open>Which \<open>print\<close> statement a line came from.\<close>

fun is_sink_line :: "'dt line \<Rightarrow> bool" where
  "is_sink_line (SinkLine _ _ _ _) = True"
| "is_sink_line _ = False"

fun is_app_line :: "'dt line \<Rightarrow> bool" where
  "is_app_line (AppLine _ _ _) = True"
| "is_app_line _ = False"

fun is_error_line :: "'dt line \<Rightarrow> bool" where
  "is_error_line (ErrorLine _) = True"
| "is_error_line _ = False"

text \<open>
  The sink records, in order, whose encodings lie entirely within the first \<open>room\<close>
  bytes of the encoded sink sequence.
\<close>

fun complete_before :: "nat \<Rightarrow> sink list \<Rightarrow> sink list" where
  "complete_before room [] = []"
| "complete_before room (s # ss) =
     (if length (encode_sink s) \<le> room
      then s # complete_before (room - length (encode_sink s)) ss
      else [])"

text \<open>
  The scenario of section 8 of the specification, and the same snapshot stamped with the
  largest 64-bit millisecond count.
\<close>

definition example_header :: header where
  "example_header =
     \<lparr>version = 1, generation = 42, timestamp_ms = 1700000000000, reserved = replicate 12 0\<rparr>"

definition late_header :: header where
  "late_header = example_header\<lparr>timestamp_ms := 18446744073709551615\<rparr>"

definition example_sink :: sink where
  "example_sink =
     \<lparr>sink_name = [0x53, 0x70, 0x65, 0x61, 0x6B, 0x65, 0x72, 0x73], sink_id = 7,
      sink_volume = 0x3F400000, sink_muted = False\<rparr>"

definition example_app :: app where
  "example_app =
     \<lparr>app_name = [0x66, 0x69, 0x72, 0x65, 0x66, 0x6F, 0x78],
      app_current_sink = [0x53, 0x70, 0x65, 0x61, 0x6B, 0x65, 0x72, 0x73],
      app_active = True\<rparr>"

definition other_sink :: sink where
  "other_sink =
     \<lparr>sink_name = [0x43, 0x61, 0x66, 0xE9], sink_id = 9,
      sink_volume = 0x3F800000, sink_muted = True\<rparr>"

text \<open>The example sink with a signalling NaN for its volume.\<close>

definition nan_sink :: sink where
  "nan_sink = example_sink\<lparr>sink_volume := 0x7FA00000\<rparr>"

definition empty_app :: app where
  "empty_app = \<lparr>app_name = [], app_current_sink = [], app_active = False\<rparr>"

section \<open>Properties\<close>

subsection \<open>Runs, slices and the string helper\<close>

lemma attempt_simps:
  "attempt (Inr v) k = k v"
  "attempt (Inl e) k = ([], Inl e)"
  by (simp_all add: attempt_def)

lemma emit_simps:
  "emit l (out, r) = (l # out, r)"
  "fst (emit l k) = l # fst k"
  "snd (emit l k) = snd k"
  by (simp_all add: emit_def)

lemma after_simps:
  "after (out, Inr v) k = (out @ fst (k v), snd (k v))"
  "after (out, Inl e) k = (out, Inl e)"
  by (simp_all add: after_def)

lemma length_slice:
  "a \<le> b \<Longrightarrow> b \<le> length data \<Longrightarrow> length (bytes_slice data a b) = b - a"
  by (simp add: bytes_slice_def)

lemma read_string_cases:
  "read_string data c =
     (if c \<ge> length data then Inr (None, c)
      else if c + 1 + unat (data ! c) > length data then Inr (None, c + 1)
      else Inr (Some (decode_utf8 Ignore (bytes_slice data (c + 1) (c + 1 + unat (data ! c)))),
                c + 1 + unat (data ! c)))"
  by (simp add: read_string_def index_def Let_def)

lemma read_string_total:
  "\<exists>r c'. read_string data c = Inr (r, c') \<and> c' \<le> max c (length data)"
  by (simp add: read_string_cases)

lemma sink_loop_total:
  "\<exists>out c'. (sink_loop data n c :: ('dt, nat) run) = (out, Inr c')
      \<and> c' \<le> max c (length data)"
proof (induction n arbitrary: c)
  case 0
  show ?case by simp
next
  case (Suc n)
  obtain r c1 where r: "read_string data c = Inr (r, c1)" and c1: "c1 \<le> max c (length data)"
    using read_string_total by blast
  show ?case
  proof (cases r)
    case None
    with r c1 show ?thesis by (simp add: attempt_simps)
  next
    case (Some name)
    show ?thesis
    proof (cases "c1 + 9 > length data")
      case True
      with r c1 Some show ?thesis by (simp add: attempt_simps)
    next
      case False
      obtain out c' where rec: "(sink_loop data n (c1 + 9) :: ('dt, nat) run) = (out, Inr c')"
        and c': "c' \<le> max (c1 + 9) (length data)"
        using Suc.IH by blast
      from False have "length (bytes_slice data c1 (c1 + 4)) = 4"
        and "length (bytes_slice data (c1 + 4) (c1 + 8)) = 4" and "c1 + 8 < length data"
        by (simp_all add: length_slice)
      with r Some False rec c' show ?thesis
        by (auto simp add: attempt_simps emit_simps unpack_I_def unpack_f_def index_def)
    qed
  qed
qed

subsection \<open>UTF-8: decoding what was encoded\<close>

lemma unat_byte: "n < 256 \<Longrightarrow> unat (of_nat n :: byte) = n"
  by (simp add: unat_of_nat)

lemma step1g: "unat b1 < 0x80 \<Longrightarrow> utf8_step (b1 # rest) = (Some (unat b1), 1)"
  by (simp add: utf8_step_def)

lemma step2g:
  assumes "unat b1 = 0xC0 + a" "unat b2 = 0x80 + b" "2 \<le> a" "a < 32" "b < 64"
  shows "utf8_step (b1 # b2 # rest) = (Some (a * 64 + b), 2)"
  using assms by (simp add: utf8_step_def is_cont_def Let_def)

lemma step3g:
  assumes "unat b1 = 0xE0 + a" "unat b2 = 0x80 + b" "unat b3 = 0x80 + c"
    "a < 16" "b < 64" "c < 64" "a = 0 \<longrightarrow> 32 \<le> b" "a = 13 \<longrightarrow> b < 32"
  shows "utf8_step (b1 # b2 # b3 # rest) = (Some (a * 4096 + b * 64 + c), 3)"
  using assms by (auto simp add: utf8_step_def is_cont_def Let_def)

lemma step4g:
  assumes "unat b1 = 0xF0 + a" "unat b2 = 0x80 + b" "unat b3 = 0x80 + c" "unat b4 = 0x80 + d"
    "a < 5" "b < 64" "c < 64" "d < 64" "a = 0 \<longrightarrow> 16 \<le> b" "a = 4 \<longrightarrow> b < 16"
  shows "utf8_step (b1 # b2 # b3 # b4 # rest) = (Some (a * 262144 + b * 4096 + c * 64 + d), 4)"
  using assms by (auto simp add: utf8_step_def is_cont_def Let_def)

lemma split64: "(n::nat) = n div 64 * 64 + n mod 64"
  by simp

lemma div4096: "(n::nat) div 4096 = n div 64 div 64"
  by (simp add: div_mult2_eq)

lemma div262144: "(n::nat) div 262144 = n div 64 div 64 div 64"
  by (simp add: div_mult2_eq)

lemma join3: "(cp::nat) div 4096 * 4096 + cp div 64 mod 64 * 64 + cp mod 64 = cp"
proof -
  have "cp div 64 = cp div 4096 * 64 + cp div 64 mod 64"
    unfolding div4096 by simp
  then show ?thesis using split64 [of cp] by linarith
qed

lemma join4:
  "(cp::nat) div 262144 * 262144 + cp div 4096 mod 64 * 4096 + cp div 64 mod 64 * 64 + cp mod 64 = cp"
proof -
  have "cp div 4096 = cp div 262144 * 64 + cp div 4096 mod 64"
    unfolding div262144 div4096 by simp
  then show ?thesis using join3 [of cp] by linarith
qed

lemma utf8_step_encode_cp:
  assumes "scalar cp"
  shows "utf8_step (encode_cp cp @ rest) = (Some cp, length (encode_cp cp))"
proof -
  consider (one) "cp < 0x80" | (two) "0x80 \<le> cp" "cp < 0x800"
    | (three) "0x800 \<le> cp" "cp < 0x10000" | (four) "0x10000 \<le> cp" "cp < 0x110000"
    using assms unfolding scalar_def by linarith
  then show ?thesis
  proof cases
    case one
    then have "unat (of_nat cp :: byte) = cp" by (intro unat_byte) simp
    with one show ?thesis
      using step1g [of "of_nat cp" rest] by (simp add: encode_cp_def)
  next
    case two
    have "utf8_step (of_nat (0xC0 + cp div 64) # of_nat (0x80 + cp mod 64) # rest)
          = (Some (cp div 64 * 64 + cp mod 64), 2)"
      using two by (intro step2g unat_byte) simp_all
    with two show ?thesis
      by (simp add: encode_cp_def del: of_nat_add of_nat_numeral)
  next
    case three
    have hi: "cp div 4096 < 16" "cp div 4096 = 0 \<longrightarrow> 32 \<le> cp div 64 mod 64"
      "cp div 4096 = 13 \<longrightarrow> cp div 64 mod 64 < 32"
      using three assms join3 [of cp] unfolding scalar_def by simp_all linarith+
    have "utf8_step (of_nat (0xE0 + cp div 4096) # of_nat (0x80 + cp div 64 mod 64)
            # of_nat (0x80 + cp mod 64) # rest)
          = (Some (cp div 4096 * 4096 + cp div 64 mod 64 * 64 + cp mod 64), 3)"
      using hi by (intro step3g unat_byte) simp_all
    with three show ?thesis
      by (simp add: encode_cp_def join3 del: of_nat_add of_nat_numeral)
  next
    case four
    have hi: "cp div 262144 < 5" "cp div 262144 = 0 \<longrightarrow> 16 \<le> cp div 4096 mod 64"
      "cp div 262144 = 4 \<longrightarrow> cp div 4096 mod 64 < 16"
      using four join4 [of cp] join3 [of cp] by simp_all linarith+
    have "utf8_step (of_nat (0xF0 + cp div 262144) # of_nat (0x80 + cp div 4096 mod 64)
            # of_nat (0x80 + cp div 64 mod 64) # of_nat (0x80 + cp mod 64) # rest)
          = (Some (cp div 262144 * 262144 + cp div 4096 mod 64 * 4096
                   + cp div 64 mod 64 * 64 + cp mod 64), 4)"
      using hi by (intro step4g unat_byte) simp_all
    with four show ?thesis
      by (simp add: encode_cp_def join4 del: of_nat_add of_nat_numeral)
  qed
qed

lemma decode_encode_cp:
  assumes s: "scalar cp"
  shows "decode_utf8 h (encode_cp cp @ rest) = cp # decode_utf8 h rest"
proof -
  obtain b bs where e: "encode_cp cp = b # bs"
    by (cases "encode_cp cp") (auto simp add: encode_cp_def split: if_splits)
  have "utf8_step (b # bs @ rest) = (Some cp, Suc (length bs))"
    using utf8_step_encode_cp [OF s, of rest] e by simp
  then show ?thesis using e by simp
qed

lemma decode_encode_utf8:
  "list_all scalar s \<Longrightarrow> decode_utf8 h (encode_utf8 s @ rest) = s @ decode_utf8 h rest"
  by (induction s) (simp_all add: encode_utf8_def decode_encode_cp)

subsection \<open>No read escapes the buffer\<close>

lemma app_loop_total:
  "\<exists>out c'. (app_loop data n c :: ('dt, nat) run) = (out, Inr c')
      \<and> c' \<le> max c (length data)"
proof (induction n arbitrary: c)
  case 0
  show ?case by simp
next
  case (Suc n)
  obtain r c1 where r: "read_string data c = Inr (r, c1)" and c1: "c1 \<le> max c (length data)"
    using read_string_total by blast
  obtain r2 c2 where r2: "read_string data c1 = Inr (r2, c2)"
    and c2: "c2 \<le> max c1 (length data)"
    using read_string_total by blast
  obtain out c' where rec: "(app_loop data n (c2 + 1) :: ('dt, nat) run) = (out, Inr c')"
    and c': "c' \<le> max (c2 + 1) (length data)"
    using Suc.IH by blast
  show ?case
    using r c1 r2 c2 rec c'
    by (cases r; cases r2; cases "c2 \<ge> length data")
      (auto simp add: attempt_simps emit_simps index_def)
qed

lemma apps_section_total:
  "\<exists>out. (apps_section data c :: ('dt, unit) run) = (out, Inr ())"
proof (cases "c + 4 > length data")
  case True
  then show ?thesis by (simp add: apps_section_def emit_simps finish_def)
next
  case False
  obtain out c' where l: "(app_loop data (le_nat (bytes_slice data c (c + 4))) (c + 4) :: ('dt, nat) run)
      = (out, Inr c')"
    using app_loop_total by blast
  from False have "length (bytes_slice data c (c + 4)) = 4" by (simp add: length_slice)
  with False l show ?thesis
    by (simp add: apps_section_def unpack_I_def attempt_simps emit_simps after_simps finish_def)
qed

lemma sinks_section_total:
  "\<exists>out. (sinks_section data c :: ('dt, unit) run) = (out, Inr ())"
proof (cases "c + 4 > length data")
  case True
  then show ?thesis by (simp add: sinks_section_def emit_simps finish_def)
next
  case False
  obtain out c' where l: "(sink_loop data (le_nat (bytes_slice data c (c + 4))) (c + 4) :: ('dt, nat) run)
      = (out, Inr c')"
    using sink_loop_total by blast
  obtain out' where a: "(apps_section data c' :: ('dt, unit) run) = (out', Inr ())"
    using apps_section_total by blast
  from False have "length (bytes_slice data c (c + 4)) = 4" by (simp add: length_slice)
  with False l a show ?thesis
    by (simp add: sinks_section_def unpack_I_def attempt_simps emit_simps after_simps)
qed

lemma try_body_header:
  assumes "32 \<le> length data"
  shows "try_body clock data =
    emit Title (emit Rule (emit (Version (le_nat (bytes_slice data 0 4)))
      (emit (Generation (le_nat (bytes_slice data 4 12)))
        (attempt (clock (le_nat (bytes_slice data 12 20))) (\<lambda>dt.
           emit (Timestamp dt) (emit Blank (sinks_section data 32)))))))"
proof -
  have "length (bytes_slice data 0 4) = 4" "length (bytes_slice data 4 12) = 8"
    "length (bytes_slice data 12 20) = 8"
    using assms by (simp_all add: length_slice)
  with assms show ?thesis
    by (simp add: try_body_def unpack_I_def unpack_Q_def attempt_simps)
qed

lemma try_body_raises:
  assumes "snd (try_body clock data) = Inl e"
  shows "32 \<le> length data \<and> clock (le_nat (bytes_slice data 12 20)) = Inl e"
proof (cases "length data < 32")
  case True
  with assms show ?thesis by (simp add: try_body_def emit_simps finish_def)
next
  case False
  then have len: "32 \<le> length data" by simp
  show ?thesis
  proof (cases "clock (le_nat (bytes_slice data 12 20))")
    case (Inl e')
    with assms len show ?thesis
      by (simp add: try_body_header emit_simps attempt_simps)
  next
    case (Inr dt)
    obtain out where "(sinks_section data 32 :: ('a, unit) run) = (out, Inr ())"
      using sinks_section_total by blast
    with assms len Inr show ?thesis
      by (simp add: try_body_header emit_simps attempt_simps)
  qed
qed

subsection \<open>Decoding what the layout prescribes\<close>

lemma length_le_bytes: "length (le_bytes k v) = k"
  by (induction k arbitrary: v) simp_all

lemma le_nat_le_bytes: "le_nat (le_bytes k v) = v mod 256 ^ k"
proof (induction k arbitrary: v)
  case 0
  show ?case by simp
next
  case (Suc k)
  have "unat (of_nat (v mod 256) :: byte) = v mod 256"
    by (intro unat_byte) simp
  then have "le_nat (le_bytes (Suc k) v) = v mod 256 + 256 * (v div 256 mod 256 ^ k)"
    by (simp add: Suc.IH)
  also have "\<dots> = v mod 256 ^ Suc k"
    by (simp add: mod_mult2_eq)
  finally show ?case .
qed

lemma length_pack:
  "length (pack_I v) = 4" "length (pack_Q v) = 8" "length (pack_f w) = 4"
  "length (pack_bool b) = 1"
  by (simp_all add: pack_I_def pack_Q_def pack_f_def pack_bool_def length_le_bytes)

lemma unpack_pack_I: "v < 2 ^ 32 \<Longrightarrow> unpack_I (pack_I v) = Inr v"
  by (simp add: unpack_I_def pack_I_def length_le_bytes le_nat_le_bytes)

lemma unpack_pack_Q: "v < 2 ^ 64 \<Longrightarrow> unpack_Q (pack_Q v) = Inr v"
  by (simp add: unpack_Q_def pack_Q_def length_le_bytes le_nat_le_bytes)

lemma unpack_pack_f: "unpack_f (pack_f w) = Inr (widen w)"
proof -
  have "unat w < 2 ^ 32" using unsigned_less [of w] by simp
  then show ?thesis
    by (simp add: unpack_f_def pack_f_def length_le_bytes le_nat_le_bytes)
qed

lemma slice_append:
  "bytes_slice (A @ X @ B) (length A) (length A + length X) = X"
  by (simp add: bytes_slice_def)

lemma slice_at:
  "data = A @ X @ B \<Longrightarrow> c = length A \<Longrightarrow> d = c + length X \<Longrightarrow> bytes_slice data c d = X"
  by (simp add: bytes_slice_def)

lemma index_at:
  "data = A @ x # B \<Longrightarrow> c = length A \<Longrightarrow> index data c = Inr x"
  by (simp add: index_def)

lemma length_encode_string:
  "length (encode_string s) = Suc (length (encode_utf8 s))"
  by (simp add: encode_string_def)

lemma read_string_encode_string:
  assumes "wf_string s" and data: "data = A @ encode_string s @ B" and c: "c = length A"
  shows "read_string data c = Inr (Some s, c + length (encode_string s))"
proof -
  let ?L = "length (encode_utf8 s)"
  from assms have sc: "list_all scalar s" and L: "?L \<le> 255"
    by (simp_all add: wf_string_def)
  have b: "data ! c = of_nat ?L"
    by (simp add: data c encode_string_def)
  have u: "unat (of_nat ?L :: byte) = ?L" using L by (intro unat_byte) simp
  have split: "data = (A @ [of_nat ?L]) @ encode_utf8 s @ B"
    by (simp add: data encode_string_def)
  have "bytes_slice data (c + 1) (c + 1 + ?L) = encode_utf8 s"
    by (rule slice_at [OF split]) (simp_all add: c)
  moreover have "decode_utf8 Ignore (encode_utf8 s) = s"
    using decode_encode_utf8 [OF sc, of Ignore "[]"] by simp
  moreover have "c < length data" "c + 1 + ?L \<le> length data"
    by (simp_all add: data c encode_string_def)
  ultimately show ?thesis
    by (simp add: read_string_cases b u length_encode_string)
qed

lemma length_encode_sink:
  "length (encode_sink s) = length (encode_string (sink_name s)) + 9"
  by (simp add: encode_sink_def length_pack)

lemma length_encode_app:
  "length (encode_app a) =
     length (encode_string (app_name a)) + length (encode_string (app_current_sink a)) + 1"
  by (simp add: encode_app_def length_pack)

lemma flag_pack_bool: "pack_bool b = [x] \<Longrightarrow> (x = 1) = b"
  by (cases b) (auto simp add: pack_bool_def)

lemma sink_loop_step:
  assumes wf: "wf_sink s" and data: "data = A @ encode_sink s @ B" and c: "c = length A"
  shows "(sink_loop data (Suc n) c :: ('dt, nat) run) =
           emit (sink_line (held s)) (sink_loop data n (c + length (encode_sink s)))"
proof -
  let ?N = "encode_string (sink_name s)"
  let ?c1 = "c + length ?N"
  obtain x where x: "pack_bool (sink_muted s) = [x]" by (simp add: pack_bool_def)
  have d1: "data = A @ ?N @ (pack_I (sink_id s) @ pack_f (sink_volume s) @ [x] @ B)"
    by (simp add: data encode_sink_def x)
  have d2: "data = (A @ ?N) @ pack_I (sink_id s) @ (pack_f (sink_volume s) @ [x] @ B)"
    by (simp add: d1)
  have d3: "data = (A @ ?N @ pack_I (sink_id s)) @ pack_f (sink_volume s) @ ([x] @ B)"
    by (simp add: d1)
  have d4: "data = (A @ ?N @ pack_I (sink_id s) @ pack_f (sink_volume s)) @ x # B"
    by (simp add: d1)
  have rs: "read_string data c = Inr (Some (sink_name s), ?c1)"
    using wf by (intro read_string_encode_string [OF _ d1 c]) (simp add: wf_sink_def)
  have room: "\<not> ?c1 + 9 > length data"
    by (simp add: d1 c length_pack)
  have s1: "bytes_slice data ?c1 (?c1 + 4) = pack_I (sink_id s)"
    by (rule slice_at [OF d2]) (simp_all add: c length_pack)
  have s2: "bytes_slice data (?c1 + 4) (?c1 + 8) = pack_f (sink_volume s)"
    by (rule slice_at [OF d3]) (simp_all add: c length_pack)
  have s3: "index data (?c1 + 8) = Inr x"
    by (rule index_at [OF d4]) (simp_all add: c length_pack)
  have u1: "unpack_I (pack_I (sink_id s)) = Inr (sink_id s)"
    using wf by (intro unpack_pack_I) (simp add: wf_sink_def)
  have len: "c + length (encode_sink s) = ?c1 + 9"
    by (simp add: length_encode_sink)
  show ?thesis
    using room
    by (simp add: rs s1 s2 s3 u1 unpack_pack_f attempt_simps sink_line_def held_def len
        flag_pack_bool [OF x])
qed

lemma app_loop_step:
  assumes wf: "wf_app a" and data: "data = A @ encode_app a @ B" and c: "c = length A"
  shows "(app_loop data (Suc n) c :: ('dt, nat) run) =
           emit (app_line a) (app_loop data n (c + length (encode_app a)))"
proof -
  let ?N = "encode_string (app_name a)"
  let ?S = "encode_string (app_current_sink a)"
  let ?c1 = "c + length ?N"
  let ?c2 = "?c1 + length ?S"
  obtain x where x: "pack_bool (app_active a) = [x]" by (simp add: pack_bool_def)
  have d1: "data = A @ ?N @ (?S @ [x] @ B)"
    by (simp add: data encode_app_def x)
  have d2: "data = (A @ ?N) @ ?S @ ([x] @ B)"
    by (simp add: d1)
  have d3: "data = (A @ ?N @ ?S) @ x # B"
    by (simp add: d1)
  have rs1: "read_string data c = Inr (Some (app_name a), ?c1)"
    using wf by (intro read_string_encode_string [OF _ d1 c]) (simp add: wf_app_def)
  have rs2: "read_string data ?c1 = Inr (Some (app_current_sink a), ?c2)"
    using wf by (intro read_string_encode_string [OF _ d2]) (simp_all add: wf_app_def c)
  have room: "\<not> ?c2 \<ge> length data"
    by (simp add: d1 c)
  have s3: "index data ?c2 = Inr x"
    by (rule index_at [OF d3]) (simp_all add: c)
  have len: "c + length (encode_app a) = ?c2 + 1"
    by (simp add: length_encode_app)
  show ?thesis
    using room
    by (simp add: rs1 rs2 s3 attempt_simps app_line_def len flag_pack_bool [OF x])
qed

lemma fst_emit_run: "emit l k = (l # fst k, snd k)"
  by (simp add: emit_def)

lemma sink_loop_records:
  assumes "list_all wf_sink sinks" and "data = A @ encode_sinks sinks @ B" and "c = length A"
  shows "(sink_loop data (length sinks + m) c :: ('dt, nat) run) =
     (map sink_line (map held sinks) @ fst (sink_loop data m (c + length (encode_sinks sinks)) :: ('dt, nat) run),
      snd (sink_loop data m (c + length (encode_sinks sinks)) :: ('dt, nat) run))"
  using assms
proof (induction sinks arbitrary: A c)
  case Nil
  then show ?case by (simp add: encode_sinks_def)
next
  case (Cons s ss)
  let ?c1 = "c + length (encode_sink s)"
  have d: "data = A @ encode_sink s @ (encode_sinks ss @ B)"
    using Cons.prems by (simp add: encode_sinks_def)
  have d': "data = (A @ encode_sink s) @ encode_sinks ss @ B"
    using d by simp
  have step: "(sink_loop data (Suc (length ss + m)) c :: ('dt, nat) run) =
      emit (sink_line (held s)) (sink_loop data (length ss + m) ?c1)"
    using Cons.prems by (intro sink_loop_step [OF _ d]) simp_all
  have ih: "(sink_loop data (length ss + m) ?c1 :: ('dt, nat) run) =
     (map sink_line (map held ss) @ fst (sink_loop data m (?c1 + length (encode_sinks ss)) :: ('dt, nat) run),
      snd (sink_loop data m (?c1 + length (encode_sinks ss)) :: ('dt, nat) run))"
    using Cons.prems by (intro Cons.IH [OF _ d']) simp_all
  have l: "c + length (encode_sinks (s # ss)) = ?c1 + length (encode_sinks ss)"
    by (simp add: encode_sinks_def)
  show ?case
    unfolding l using step ih by (simp add: fst_emit_run)
qed

lemma app_loop_records:
  assumes "list_all wf_app apps" and "data = A @ encode_apps apps @ B" and "c = length A"
  shows "(app_loop data (length apps + m) c :: ('dt, nat) run) =
     (map app_line apps @ fst (app_loop data m (c + length (encode_apps apps)) :: ('dt, nat) run),
      snd (app_loop data m (c + length (encode_apps apps)) :: ('dt, nat) run))"
  using assms
proof (induction apps arbitrary: A c)
  case Nil
  then show ?case by (simp add: encode_apps_def)
next
  case (Cons a as)
  let ?c1 = "c + length (encode_app a)"
  have d: "data = A @ encode_app a @ (encode_apps as @ B)"
    using Cons.prems by (simp add: encode_apps_def)
  have d': "data = (A @ encode_app a) @ encode_apps as @ B"
    using d by simp
  have step: "(app_loop data (Suc (length as + m)) c :: ('dt, nat) run) =
      emit (app_line a) (app_loop data (length as + m) ?c1)"
    using Cons.prems by (intro app_loop_step [OF _ d]) simp_all
  have ih: "(app_loop data (length as + m) ?c1 :: ('dt, nat) run) =
     (map app_line as @ fst (app_loop data m (?c1 + length (encode_apps as)) :: ('dt, nat) run),
      snd (app_loop data m (?c1 + length (encode_apps as)) :: ('dt, nat) run))"
    using Cons.prems by (intro Cons.IH [OF _ d']) simp_all
  have l: "c + length (encode_apps (a # as)) = ?c1 + length (encode_apps as)"
    by (simp add: encode_apps_def)
  show ?case
    unfolding l using step ih by (simp add: fst_emit_run)
qed

lemma read_string_Some:
  "read_string data c = Inr (Some name, c1) \<Longrightarrow>
     c < length data \<and> c1 = c + 1 + unat (data ! c) \<and> c1 \<le> length data"
  by (simp add: read_string_cases split: if_splits)

lemma sink_loop_cut:
  assumes wf: "wf_sink s" and j: "j < length (encode_sink s)"
    and data: "data = A @ take j (encode_sink s)" and c: "c = length A"
  shows "\<exists>c'. (sink_loop data (Suc n) c :: ('dt, nat) run) = ([], Inr c') \<and> c' \<le> length data"
proof -
  let ?L = "length (encode_utf8 (sink_name s))"
  obtain r c1 where r: "read_string data c = Inr (r, c1)" and c1: "c1 \<le> max c (length data)"
    using read_string_total by blast
  have cl: "c \<le> length data" by (simp add: data c)
  show ?thesis
  proof (cases r)
    case None
    with r c1 cl show ?thesis by (simp add: attempt_simps max_def)
  next
    case (Some name)
    from read_string_Some [OF r [unfolded Some]]
    have lt: "c < length data" and c1': "c1 = c + 1 + unat (data ! c)" and le: "c1 \<le> length data"
      by simp_all
    from lt have j0: "0 < j" by (simp add: data c)
    have L: "?L \<le> 255" using wf by (simp add: wf_sink_def wf_string_def)
    have "data ! c = of_nat ?L"
      using j0 by (simp add: data c nth_append encode_sink_def encode_string_def take_Cons')
    then have "unat (data ! c) = ?L" using L by (simp add: unat_byte)
    with c1' have "c1 = c + 1 + ?L" by simp
    moreover have "length data = c + j" using j by (simp add: data c)
    moreover have "length (encode_sink s) = ?L + 10"
      by (simp add: length_encode_sink length_encode_string)
    ultimately have "c1 + 9 > length data" using j by simp
    with r Some le show ?thesis by (simp add: attempt_simps)
  qed
qed

lemma sink_loop_truncated:
  assumes "list_all wf_sink sinks" and "data = A @ take room (encode_sinks sinks @ B)"
    and "c = length A"
  shows "\<exists>c'. (sink_loop data (length sinks) c :: ('dt, nat) run)
           = (map sink_line (map held (complete_before room sinks)), Inr c') \<and> c' \<le> length data"
  using assms
proof (induction sinks arbitrary: A c room)
  case Nil
  then show ?case by simp
next
  case (Cons s ss)
  let ?n = "length (encode_sink s)"
  show ?case
  proof (cases "?n \<le> room")
    case True
    have d: "data = A @ encode_sink s @ take (room - ?n) (encode_sinks ss @ B)"
      using Cons.prems True by (simp add: encode_sinks_def)
    have d': "data = (A @ encode_sink s) @ take (room - ?n) (encode_sinks ss @ B)"
      using d by simp
    have step: "(sink_loop data (Suc (length ss)) c :: ('dt, nat) run) =
        emit (sink_line (held s)) (sink_loop data (length ss) (c + ?n))"
      using Cons.prems by (intro sink_loop_step [OF _ d]) simp_all
    obtain c' where "(sink_loop data (length ss) (c + ?n) :: ('dt, nat) run) =
        (map sink_line (map held (complete_before (room - ?n) ss)), Inr c')" and "c' \<le> length data"
      using Cons.IH [OF _ d', of "c + ?n"] Cons.prems by auto
    with step True show ?thesis by (simp add: fst_emit_run)
  next
    case False
    then have d: "data = A @ take room (encode_sink s)"
      using Cons.prems by (simp add: encode_sinks_def)
    from False have "room < ?n" by simp
    from sink_loop_cut [OF _ this d, of c "length ss"] Cons.prems
    obtain c' where "(sink_loop data (Suc (length ss)) c :: ('dt, nat) run) = ([], Inr c')"
      and "c' \<le> length data" by auto
    with False show ?thesis by simp
  qed
qed

subsection \<open>The sections of a run\<close>

lemma sink_loop_lines: "list_all is_sink_line (fst (sink_loop data n c :: ('dt, nat) run))"
proof (induction n arbitrary: c)
  case 0
  show ?case by simp
next
  case (Suc n)
  obtain r c1 where r: "read_string data c = Inr (r, c1)"
    using read_string_total by blast
  show ?case
  proof (cases r)
    case None
    with r show ?thesis by (simp add: attempt_simps)
  next
    case (Some name)
    show ?thesis
    proof (cases "c1 + 9 > length data")
      case True
      with r Some show ?thesis by (simp add: attempt_simps)
    next
      case False
      then have "length (bytes_slice data c1 (c1 + 4)) = 4"
        and "length (bytes_slice data (c1 + 4) (c1 + 8)) = 4" and "c1 + 8 < length data"
        by (simp_all add: length_slice)
      with r Some False Suc.IH [of "c1 + 9"] show ?thesis
        by (simp add: attempt_simps emit_simps unpack_I_def unpack_f_def index_def)
    qed
  qed
qed

lemma app_loop_lines: "list_all is_app_line (fst (app_loop data n c :: ('dt, nat) run))"
proof (induction n arbitrary: c)
  case 0
  show ?case by simp
next
  case (Suc n)
  obtain r c1 where r: "read_string data c = Inr (r, c1)"
    using read_string_total by blast
  obtain r2 c2 where r2: "read_string data c1 = Inr (r2, c2)"
    using read_string_total by blast
  show ?case
    using r r2 Suc.IH [of "c2 + 1"]
    by (cases r; cases r2; cases "c2 \<ge> length data")
      (simp_all add: attempt_simps emit_simps index_def)
qed

lemma apps_section_short:
  "length data < c + 4 \<Longrightarrow> (apps_section data c :: ('dt, unit) run) = ([NoAppData], Inr ())"
  by (simp add: apps_section_def emit_simps finish_def)

lemma apps_section_loop:
  assumes "c + 4 \<le> length data"
    and "(app_loop data (le_nat (bytes_slice data c (c + 4))) (c + 4) :: ('dt, nat) run)
           = (ls, Inr c')"
  shows "(apps_section data c :: ('dt, unit) run) =
     (AppsHeader (le_nat (bytes_slice data c (c + 4))) # ls @ [Blank, TotalSize (length data)],
      Inr ())"
proof -
  from assms have "length (bytes_slice data c (c + 4)) = 4" by (simp add: length_slice)
  with assms show ?thesis
    by (simp add: apps_section_def unpack_I_def attempt_simps emit_simps after_simps finish_def)
qed

lemma sinks_section_short:
  "length data < c + 4 \<Longrightarrow> (sinks_section data c :: ('dt, unit) run) = ([NoSinkData], Inr ())"
  by (simp add: sinks_section_def emit_simps finish_def)

lemma sinks_section_loop:
  assumes "c + 4 \<le> length data"
    and "(sink_loop data (le_nat (bytes_slice data c (c + 4))) (c + 4) :: ('dt, nat) run)
           = (ls, Inr c')"
  shows "(sinks_section data c :: ('dt, unit) run) =
     (SinksHeader (le_nat (bytes_slice data c (c + 4))) # ls @ Blank
        # fst (apps_section data c' :: ('dt, unit) run), Inr ())"
proof -
  from assms have "length (bytes_slice data c (c + 4)) = 4" by (simp add: length_slice)
  moreover obtain out where "(apps_section data c' :: ('dt, unit) run) = (out, Inr ())"
    using apps_section_total by blast
  ultimately show ?thesis
    using assms
    by (simp add: sinks_section_def unpack_I_def attempt_simps emit_simps after_simps)
qed

lemma filter_none: "list_all (\<lambda>x. \<not> P x) xs \<Longrightarrow> filter P xs = []"
  by (induction xs) simp_all

lemma app_lines_other:
  "list_all is_app_line ls \<Longrightarrow> filter is_sink_line ls = [] \<and> filter is_error_line ls = []"
proof (induction ls)
  case Nil
  show ?case by simp
next
  case (Cons l ls)
  then show ?case by (cases l) simp_all
qed

lemma sink_lines_other:
  "list_all is_sink_line ls \<Longrightarrow> filter is_error_line ls = [] \<and> filter is_sink_line ls = ls"
proof (induction ls)
  case Nil
  show ?case by simp
next
  case (Cons l ls)
  then show ?case by (cases l) simp_all
qed

lemma apps_section_lines:
  "filter is_sink_line (fst (apps_section data c :: ('dt, unit) run)) = [] \<and>
   filter is_error_line (fst (apps_section data c :: ('dt, unit) run)) = []"
proof (cases "length data < c + 4")
  case True
  then show ?thesis by (simp add: apps_section_short)
next
  case False
  obtain ls c' where l: "(app_loop data (le_nat (bytes_slice data c (c + 4))) (c + 4)
      :: ('dt, nat) run) = (ls, Inr c')"
    using app_loop_total by blast
  have "list_all is_app_line ls"
    using app_loop_lines [of data "le_nat (bytes_slice data c (c + 4))" "c + 4"] l
    by (metis fst_conv)
  from app_lines_other [OF this] False show ?thesis
    by (simp add: apps_section_loop [OF _ l])
qed

lemma parse_converts:
  assumes "32 \<le> length data" and "clock (le_nat (bytes_slice data 12 20)) = Inr dt"
  shows "parse_shared_memory clock data =
     [Title, Rule, Version (le_nat (bytes_slice data 0 4)),
      Generation (le_nat (bytes_slice data 4 12)), Timestamp dt, Blank]
     @ fst (sinks_section data 32 :: ('dt, unit) run)"
proof -
  obtain out where "(sinks_section data 32 :: ('dt, unit) run) = (out, Inr ())"
    using sinks_section_total by blast
  with assms show ?thesis
    by (simp add: parse_shared_memory_def try_body_header emit_simps attempt_simps)
qed

lemma parse_raises:
  assumes "32 \<le> length data" and "clock (le_nat (bytes_slice data 12 20)) = Inl e"
  shows "parse_shared_memory clock data =
     [Title, Rule, Version (le_nat (bytes_slice data 0 4)),
      Generation (le_nat (bytes_slice data 4 12)), ErrorLine e]"
  using assms
  by (simp add: parse_shared_memory_def try_body_header emit_simps attempt_simps)

lemma length_encode_header: "wf_header h \<Longrightarrow> length (encode_header h) = 32"
  by (simp add: encode_header_def wf_header_def length_pack)

lemma le_nat_pack:
  "v < 2 ^ 32 \<Longrightarrow> le_nat (pack_I v) = v" "w < 2 ^ 64 \<Longrightarrow> le_nat (pack_Q w) = w"
  by (simp_all add: pack_I_def pack_Q_def le_nat_le_bytes)

lemma header_fields:
  assumes wf: "wf_header h" and data: "data = encode_header h @ R"
  shows "32 \<le> length data" "le_nat (bytes_slice data 0 4) = version h"
    "le_nat (bytes_slice data 4 12) = generation h"
    "le_nat (bytes_slice data 12 20) = timestamp_ms h"
proof -
  let ?V = "pack_I (version h)" and ?G = "pack_Q (generation h)"
  let ?T = "pack_Q (timestamp_ms h)"
  show "32 \<le> length data" using wf by (simp add: data length_encode_header)
  have d1: "data = [] @ ?V @ (?G @ ?T @ reserved h @ R)"
    by (simp add: data encode_header_def)
  have d2: "data = ?V @ ?G @ (?T @ reserved h @ R)"
    by (simp add: data encode_header_def)
  have d3: "data = (?V @ ?G) @ ?T @ (reserved h @ R)"
    by (simp add: data encode_header_def)
  have "bytes_slice data 0 4 = ?V"
    by (rule slice_at [OF d1]) (simp_all add: length_pack)
  then show "le_nat (bytes_slice data 0 4) = version h"
    using wf by (simp add: le_nat_pack wf_header_def)
  have "bytes_slice data 4 12 = ?G"
    by (rule slice_at [OF d2]) (simp_all add: length_pack)
  then show "le_nat (bytes_slice data 4 12) = generation h"
    using wf by (simp add: le_nat_pack wf_header_def)
  have "bytes_slice data 12 20 = ?T"
    by (rule slice_at [OF d3]) (simp_all add: length_pack)
  then show "le_nat (bytes_slice data 12 20) = timestamp_ms h"
    using wf by (simp add: le_nat_pack wf_header_def)
qed

lemma count_at:
  assumes "data = A @ pack_I v @ B" and "c = length A" and "v < 2 ^ 32"
  shows "c + 4 \<le> length data" "le_nat (bytes_slice data c (c + 4)) = v"
proof -
  show "c + 4 \<le> length data" using assms by (simp add: length_pack)
  have "bytes_slice data c (c + 4) = pack_I v"
    by (rule slice_at [OF assms(1)]) (simp_all add: assms length_pack)
  then show "le_nat (bytes_slice data c (c + 4)) = v"
    using assms by (simp add: le_nat_pack)
qed

lemma sink_loop_at_end:
  "length data \<le> c \<Longrightarrow> (sink_loop data n c :: ('dt, nat) run) = ([], Inr c)"
  by (cases n) (simp_all add: read_string_cases attempt_simps)

lemma sink_loop_encode:
  assumes "list_all wf_sink sinks" and "data = A @ encode_sinks sinks @ B" and "c = length A"
  shows "(sink_loop data (length sinks) c :: ('dt, nat) run) =
           (map sink_line (map held sinks), Inr (c + length (encode_sinks sinks)))"
  using sink_loop_records [OF assms, of 0] by simp

lemma app_loop_encode:
  assumes "list_all wf_app apps" and "data = A @ encode_apps apps @ B" and "c = length A"
  shows "(app_loop data (length apps) c :: ('dt, nat) run) =
           (map app_line apps, Inr (c + length (encode_apps apps)))"
  using app_loop_records [OF assms, of 0] by simp

lemma parse_encode_raises:
  assumes "wf_header h" and "data = encode_header h @ R"
    and "clock (timestamp_ms h) = Inl e"
  shows "parse_shared_memory clock data =
           [Title, Rule, Version (version h), Generation (generation h), ErrorLine e]"
  using parse_raises [of data clock e] header_fields [OF assms(1,2)] assms(3) by simp

lemma parse_encode_converts:
  assumes "wf_header h" and "data = encode_header h @ R"
    and "clock (timestamp_ms h) = Inr dt"
  shows "parse_shared_memory clock data =
           header_lines h dt @ fst (sinks_section data 32 :: ('dt, unit) run)"
  using parse_converts [of data clock dt] header_fields [OF assms(1,2)] assms(3)
  by (simp add: header_lines_def)

lemma apps_section_encode:
  assumes "list_all wf_app apps" and "length apps < 2 ^ 32"
    and data: "data = A @ pack_I (length apps) @ encode_apps apps" and c: "c = length A"
  shows "(apps_section data c :: ('dt, unit) run) =
           (AppsHeader (length apps) # map app_line apps @ [Blank, TotalSize (length data)],
            Inr ())"
proof -
  have d: "data = A @ pack_I (length apps) @ encode_apps apps" by (rule data)
  have d': "data = (A @ pack_I (length apps)) @ encode_apps apps @ []" by (simp add: data)
  note cnt = count_at [OF d c assms(2)]
  have "(app_loop data (length apps) (c + 4) :: ('dt, nat) run) =
          (map app_line apps, Inr (c + 4 + length (encode_apps apps)))"
    by (rule app_loop_encode [OF assms(1) d']) (simp add: c length_pack)
  with apps_section_loop [of c data "map app_line apps"] cnt show ?thesis by simp
qed

lemma complete_before_0: "complete_before 0 sinks = []"
  by (cases sinks) (simp_all add: length_encode_sink)

lemma filter_sink_lines: "filter is_sink_line (map sink_line xs :: 'dt line list) = map sink_line xs"
  by (induction xs) (simp_all add: sink_line_def)

lemma filter_error_sink_lines: "filter is_error_line (map sink_line xs :: 'dt line list) = []"
  by (induction xs) (simp_all add: sink_line_def)

subsection \<open>The example snapshots\<close>

lemma wf_examples:
  "wf_header example_header" "wf_header late_header"
  "wf_sink example_sink" "wf_sink other_sink" "wf_app example_app" "wf_app empty_app"
  by (simp_all add: wf_header_def example_header_def late_header_def wf_sink_def wf_app_def
      example_sink_def other_sink_def example_app_def empty_app_def wf_string_def scalar_def
      encode_utf8_def encode_cp_def)

lemma utc_examples:
  "utc_fromtimestamp (timestamp_ms example_header) = Inr 1700000000000"
  "utc_fromtimestamp (timestamp_ms late_header) = Inl ValueError"
  by (simp_all add: utc_fromtimestamp_def example_header_def late_header_def)

lemma header_examples:
  "version example_header = 1" "generation example_header = 42"
  "version late_header = 1" "generation late_header = 42"
  by (simp_all add: example_header_def late_header_def)

lemma length_examples:
  "length (encode_sink example_sink) = 18" "length (encode_sink other_sink) = 15"
  "length (encode_app example_app) = 18" "length (encode_app empty_app) = 3"
  by (simp_all add: length_encode_sink length_encode_app length_encode_string encode_utf8_def
      encode_cp_def example_sink_def other_sink_def example_app_def empty_app_def)

lemma line_examples:
  "sink_line example_sink =
     SinkLine [0x53, 0x70, 0x65, 0x61, 0x6B, 0x65, 0x72, 0x73] 7 0x3F400000 False"
  "sink_line other_sink = SinkLine [0x43, 0x61, 0x66, 0xE9] 9 0x3F800000 True"
  "app_line example_app =
     AppLine [0x66, 0x69, 0x72, 0x65, 0x66, 0x6F, 0x78]
       [0x53, 0x70, 0x65, 0x61, 0x6B, 0x65, 0x72, 0x73] True"
  "app_line empty_app = AppLine [] [] False"
  by (simp_all add: sink_line_def app_line_def example_sink_def other_sink_def
      example_app_def empty_app_def)

lemma held_unchanged: "\<not> signalling (sink_volume s) \<Longrightarrow> held s = s"
  by (simp add: held_def widen_def)

lemma map_held_unchanged:
  "list_all (\<lambda>s. \<not> signalling (sink_volume s)) sinks \<Longrightarrow> map held sinks = sinks"
  by (induction sinks) (simp_all add: held_unchanged)

lemma held_examples:
  "\<not> signalling (sink_volume example_sink)" "\<not> signalling (sink_volume other_sink)"
  "held example_sink = example_sink" "held other_sink = other_sink"
  by (simp_all add: held_def widen_def signalling_def example_sink_def other_sink_def)

lemma nan_examples:
  "wf_sink nan_sink" "signalling (sink_volume nan_sink)"
  "length (encode_sink nan_sink) = 18"
  "sink_line nan_sink =
     SinkLine [0x53, 0x70, 0x65, 0x61, 0x6B, 0x65, 0x72, 0x73] 7 0x7FA00000 False"
  "sink_line (held nan_sink) =
     SinkLine [0x53, 0x70, 0x65, 0x61, 0x6B, 0x65, 0x72, 0x73] 7 0x7FE00000 False"
  by (simp_all add: nan_sink_def example_sink_def wf_sink_def wf_string_def scalar_def
      encode_utf8_def encode_cp_def signalling_def held_def widen_def sink_line_def
      length_encode_sink length_encode_string)

lemma take_encode_snapshot:
  assumes "wf_header h" and "32 \<le> p"
  shows "take p (encode_snapshot h sinks apps) =
     encode_header h @ take (p - 32)
       (pack_I (length sinks) @ encode_sinks sinks @ pack_I (length apps) @ encode_apps apps)"
  using assms by (simp add: encode_snapshot_def length_encode_header)

lemma try_body_encode_raises:
  assumes "wf_header h" and "data = encode_header h @ R"
    and "clock (timestamp_ms h) = Inl e"
  shows "snd (try_body clock data) = Inl e"
  using header_fields [OF assms(1,2)] assms(3)
  by (simp add: try_body_header emit_simps attempt_simps)

lemma parse_count_only:
  assumes "length data = 36" and "clock (le_nat (bytes_slice data 12 20)) = Inr (dt :: 'dt)"
  shows "parse_shared_memory clock data =
     [Title, Rule, Version (le_nat (bytes_slice data 0 4)),
      Generation (le_nat (bytes_slice data 4 12)), Timestamp dt, Blank,
      SinksHeader (le_nat (bytes_slice data 32 36)), Blank, NoAppData]"
proof -
  have l: "(sink_loop data (le_nat (bytes_slice data 32 (32 + 4))) (32 + 4) :: ('dt, nat) run)
      = ([], Inr 36)"
    using assms(1) sink_loop_at_end [of data 36] by simp
  have "(apps_section data 36 :: ('dt, unit) run) = ([NoAppData], Inr ())"
    using assms(1) by (intro apps_section_short) simp
  moreover have "(sinks_section data 32 :: ('dt, unit) run) =
      (SinksHeader (le_nat (bytes_slice data 32 (32 + 4))) # [] @ Blank
         # fst (apps_section data 36 :: ('dt, unit) run), Inr ())"
    using assms(1) by (intro sinks_section_loop [OF _ l]) simp
  ultimately show ?thesis
    using parse_converts [of data clock dt] assms by simp
qed

lemma count_only_example:
  "length (encode_header example_header @ pack_I 3) = 36"
  "le_nat (bytes_slice (encode_header example_header @ pack_I 3) 0 4) = 1"
  "le_nat (bytes_slice (encode_header example_header @ pack_I 3) 4 12) = 42"
  "le_nat (bytes_slice (encode_header example_header @ pack_I 3) 12 20) = 1700000000000"
  "le_nat (bytes_slice (encode_header example_header @ pack_I 3) 32 36) = 3"
proof -
  let ?d = "encode_header example_header @ pack_I 3"
  show "length ?d = 36"
    by (simp add: length_encode_header wf_examples length_pack)
  show "le_nat (bytes_slice ?d 0 4) = 1" "le_nat (bytes_slice ?d 4 12) = 42"
    "le_nat (bytes_slice ?d 12 20) = 1700000000000"
    using header_fields [OF wf_examples(1), of ?d "pack_I 3"]
    by (simp_all add: example_header_def)
  have "?d = encode_header example_header @ pack_I 3 @ []" by simp
  from count_at(2) [OF this, of 32] show "le_nat (bytes_slice ?d 32 36) = 3"
    by (simp add: length_encode_header wf_examples)
qed

lemma late_snapshot:
  "32 \<le> length (encode_snapshot late_header [example_sink] [example_app])"
  "le_nat (bytes_slice (encode_snapshot late_header [example_sink] [example_app]) 0 4) = 1"
  "le_nat (bytes_slice (encode_snapshot late_header [example_sink] [example_app]) 4 12) = 42"
  "utc_fromtimestamp
     (le_nat (bytes_slice (encode_snapshot late_header [example_sink] [example_app]) 12 20))
     = Inl ValueError"
proof -
  let ?d = "encode_snapshot late_header [example_sink] [example_app]"
  have d: "?d = encode_header late_header @ (pack_I (length [example_sink])
      @ encode_sinks [example_sink] @ pack_I (length [example_app]) @ encode_apps [example_app])"
    by (simp add: encode_snapshot_def)
  note f = header_fields [OF wf_examples(2) d]
  show "32 \<le> length ?d" by (rule f(1))
  show "le_nat (bytes_slice ?d 0 4) = 1" "le_nat (bytes_slice ?d 4 12) = 42"
    using f(2,3) by (simp_all add: header_examples)
  show "utc_fromtimestamp (le_nat (bytes_slice ?d 12 20)) = Inl ValueError"
    using f(4) by (simp add: utc_examples)
qed

lemma invalid_start:
  "0x80 \<le> unat x \<and> unat x < 0xC2 \<or> 0xF5 \<le> unat x \<Longrightarrow> utf8_step (x # rest) = (None, 1)"
  by (auto simp add: utf8_step_def Let_def)

lemma parse_no_sink_count:
  assumes "32 \<le> length data" and "length data < 36"
    and "clock (le_nat (bytes_slice data 12 20)) = Inr (dt :: 'dt)"
  shows "parse_shared_memory clock data =
     [Title, Rule, Version (le_nat (bytes_slice data 0 4)),
      Generation (le_nat (bytes_slice data 4 12)), Timestamp dt, Blank, NoSinkData]"
proof -
  have "(sinks_section data 32 :: ('dt, unit) run) = ([NoSinkData], Inr ())"
    using assms(2) by (intro sinks_section_short) simp
  with parse_converts [of data clock dt] assms show ?thesis by simp
qed

lemma parse_no_app_count:
  assumes "36 \<le> length data" and "clock (le_nat (bytes_slice data 12 20)) = Inr (dt :: 'dt)"
    and l: "(sink_loop data (le_nat (bytes_slice data 32 36)) 36 :: ('dt, nat) run)
              = (ls, Inr c')"
    and "length data < c' + 4"
  shows "parse_shared_memory clock data =
     [Title, Rule, Version (le_nat (bytes_slice data 0 4)),
      Generation (le_nat (bytes_slice data 4 12)), Timestamp dt, Blank,
      SinksHeader (le_nat (bytes_slice data 32 36))] @ ls @ [Blank, NoAppData]"
proof -
  have l': "(sink_loop data (le_nat (bytes_slice data 32 (32 + 4))) (32 + 4) :: ('dt, nat) run)
      = (ls, Inr c')"
    using l by simp
  have "(apps_section data c' :: ('dt, unit) run) = ([NoAppData], Inr ())"
    using assms(4) by (rule apps_section_short)
  moreover have "(sinks_section data 32 :: ('dt, unit) run) =
      (SinksHeader (le_nat (bytes_slice data 32 (32 + 4))) # ls @ Blank
         # fst (apps_section data c' :: ('dt, unit) run), Inr ())"
    using assms(1) by (intro sinks_section_loop [OF _ l']) simp
  ultimately show ?thesis
    using parse_converts [of data clock dt] assms(1,2) by simp
qed

lemma parse_both_loops:
  assumes "36 \<le> length data" and "clock (le_nat (bytes_slice data 12 20)) = Inr (dt :: 'dt)"
    and l: "(sink_loop data (le_nat (bytes_slice data 32 36)) 36 :: ('dt, nat) run)
              = (ls, Inr c1)"
    and "c1 + 4 \<le> length data"
    and a: "(app_loop data (le_nat (bytes_slice data c1 (c1 + 4))) (c1 + 4) :: ('dt, nat) run)
              = (ls', Inr c2)"
  shows "parse_shared_memory clock data =
     [Title, Rule, Version (le_nat (bytes_slice data 0 4)),
      Generation (le_nat (bytes_slice data 4 12)), Timestamp dt, Blank,
      SinksHeader (le_nat (bytes_slice data 32 36))] @ ls
     @ [Blank, AppsHeader (le_nat (bytes_slice data c1 (c1 + 4)))] @ ls'
     @ [Blank, TotalSize (length data)]"
proof -
  have l': "(sink_loop data (le_nat (bytes_slice data 32 (32 + 4))) (32 + 4) :: ('dt, nat) run)
      = (ls, Inr c1)"
    using l by simp
  have "(apps_section data c1 :: ('dt, unit) run) =
      (AppsHeader (le_nat (bytes_slice data c1 (c1 + 4))) # ls'
         @ [Blank, TotalSize (length data)], Inr ())"
    by (rule apps_section_loop [OF assms(4) a])
  moreover have "(sinks_section data 32 :: ('dt, unit) run) =
      (SinksHeader (le_nat (bytes_slice data 32 (32 + 4))) # ls @ Blank
         # fst (apps_section data c1 :: ('dt, unit) run), Inr ())"
    using assms(1) by (intro sinks_section_loop [OF _ l']) simp
  ultimately show ?thesis
    using parse_converts [of data clock dt] assms(1,2) by simp
qed

lemma header_only_example:
  "length (encode_header example_header) = 32"
  "le_nat (bytes_slice (encode_header example_header) 0 4) = 1"
  "le_nat (bytes_slice (encode_header example_header) 4 12) = 42"
  "le_nat (bytes_slice (encode_header example_header) 12 20) = 1700000000000"
  "length (encode_header late_header) = 32"
  "le_nat (bytes_slice (encode_header late_header) 0 4) = 1"
  "le_nat (bytes_slice (encode_header late_header) 4 12) = 42"
  "utc_fromtimestamp (le_nat (bytes_slice (encode_header late_header) 12 20)) = Inl ValueError"
proof -
  show "length (encode_header example_header) = 32" "length (encode_header late_header) = 32"
    by (simp_all add: length_encode_header wf_examples)
  have e: "encode_header example_header = encode_header example_header @ []"
    and l: "encode_header late_header = encode_header late_header @ []" by simp_all
  note f = header_fields [OF wf_examples(1) e]
  note g = header_fields [OF wf_examples(2) l]
  show "le_nat (bytes_slice (encode_header example_header) 0 4) = 1"
    "le_nat (bytes_slice (encode_header example_header) 4 12) = 42"
    "le_nat (bytes_slice (encode_header example_header) 12 20) = 1700000000000"
    using f(2,3,4) by (simp_all add: example_header_def)
  show "le_nat (bytes_slice (encode_header late_header) 0 4) = 1"
    "le_nat (bytes_slice (encode_header late_header) 4 12) = 42"
    using g(2,3) by (simp_all add: header_examples)
  show "utc_fromtimestamp (le_nat (bytes_slice (encode_header late_header) 12 20))
      = Inl ValueError"
    using g(4) by (simp add: utc_examples)
qed

lemma sinks_only_example:
  "length (encode_header example_header @ pack_I 1 @ encode_sinks [example_sink]) = 54"
  "le_nat (bytes_slice (encode_header example_header @ pack_I 1 @ encode_sinks [example_sink])
     0 4) = 1"
  "le_nat (bytes_slice (encode_header example_header @ pack_I 1 @ encode_sinks [example_sink])
     4 12) = 42"
  "le_nat (bytes_slice (encode_header example_header @ pack_I 1 @ encode_sinks [example_sink])
     12 20) = 1700000000000"
  "le_nat (bytes_slice (encode_header example_header @ pack_I 1 @ encode_sinks [example_sink])
     32 36) = 1"
  "(sink_loop (encode_header example_header @ pack_I 1 @ encode_sinks [example_sink]) 1 36
      :: (nat, nat) run) = ([sink_line example_sink], Inr 54)"
proof -
  let ?d = "encode_header example_header @ pack_I 1 @ encode_sinks [example_sink]"
  show "length ?d = 54"
    by (simp add: length_encode_header wf_examples length_pack encode_sinks_def length_examples)
  show "le_nat (bytes_slice ?d 0 4) = 1" "le_nat (bytes_slice ?d 4 12) = 42"
    "le_nat (bytes_slice ?d 12 20) = 1700000000000"
    using header_fields [OF wf_examples(1), of ?d "pack_I 1 @ encode_sinks [example_sink]"]
    by (simp_all add: example_header_def)
  from count_at(2) [of ?d "encode_header example_header" 1 "encode_sinks [example_sink]" 32]
  show "le_nat (bytes_slice ?d 32 36) = 1"
    by (simp add: length_encode_header wf_examples)
  have "?d = (encode_header example_header @ pack_I 1) @ encode_sinks [example_sink] @ []"
    by simp
  from sink_loop_encode [where 'dt = nat, OF _ this, of 36]
  show "(sink_loop ?d 1 36 :: (nat, nat) run) = ([sink_line example_sink], Inr 54)"
    by (simp add: wf_examples length_encode_header length_pack encode_sinks_def
        length_examples held_examples)
qed

lemma app_loop_clean:
  assumes "wf_snapshot h sinks apps"
  shows "(app_loop (encode_snapshot h sinks apps) (length apps)
            (40 + length (encode_sinks sinks)) :: ('dt, nat) run)
         = (map app_line apps, Inr (length (encode_snapshot h sinks apps)))"
proof -
  let ?data = "encode_snapshot h sinks apps"
  let ?A = "encode_header h @ pack_I (length sinks) @ encode_sinks sinks @ pack_I (length apps)"
  from assms have wfh: "wf_header h" and wa: "list_all wf_app apps"
    by (simp_all add: wf_snapshot_def)
  have d: "?data = ?A @ encode_apps apps @ []" by (simp add: encode_snapshot_def)
  have c: "40 + length (encode_sinks sinks) = length ?A"
    by (simp add: length_encode_header [OF wfh] length_pack)
  have "length ?data = length ?A + length (encode_apps apps)"
    unfolding d by simp
  with app_loop_encode [where 'dt = 'dt, OF wa d c] show ?thesis by (simp add: c)
qed

lemma app_loop_short_name:
  assumes "data = P @ [5, 0x41]" and "c = length P"
  shows "(app_loop data (Suc n) c :: ('dt, nat) run) = ([], Inr (c + 1))"
  using assms by (simp add: read_string_cases attempt_simps)

lemma app_loop_name_only:
  assumes "data = P @ [1, 0x41]" and "c = length P"
  shows "(app_loop data (Suc n) c :: ('dt, nat) run) = ([], Inr (c + 2))"
  using assms by (simp add: read_string_cases attempt_simps)

lemma cut_app_example:
  assumes "t = [5, 0x41] \<or> t = [1, 0x41]"
  defines "d \<equiv> encode_header example_header @ pack_I 0 @ pack_I 2 @ encode_apps [empty_app] @ t"
  shows "length d = 45" "le_nat (bytes_slice d 0 4) = 1" "le_nat (bytes_slice d 4 12) = 42"
    "le_nat (bytes_slice d 12 20) = 1700000000000"
    "le_nat (bytes_slice d 32 36) = 0" "le_nat (bytes_slice d 36 40) = 2"
    "(app_loop d 2 40 :: (nat, nat) run) =
       (app_line empty_app # fst (app_loop d 1 43 :: (nat, nat) run),
        snd (app_loop d 1 43 :: (nat, nat) run))"
proof -
  have lt: "length t = 2" using assms(1) by auto
  show "length d = 45"
    by (simp add: d_def length_encode_header wf_examples length_pack encode_apps_def
        length_examples lt)
  show "le_nat (bytes_slice d 0 4) = 1" "le_nat (bytes_slice d 4 12) = 42"
    "le_nat (bytes_slice d 12 20) = 1700000000000"
    using header_fields [OF wf_examples(1), of d
        "pack_I 0 @ pack_I 2 @ encode_apps [empty_app] @ t"]
    by (simp_all add: d_def example_header_def)
  from count_at(2) [of d "encode_header example_header" 0
      "pack_I 2 @ encode_apps [empty_app] @ t" 32]
  show "le_nat (bytes_slice d 32 36) = 0"
    by (simp add: d_def length_encode_header wf_examples)
  from count_at(2) [of d "encode_header example_header @ pack_I 0" 2
      "encode_apps [empty_app] @ t" 36]
  show "le_nat (bytes_slice d 36 40) = 2"
    by (simp add: d_def length_encode_header wf_examples length_pack)
  have "d = (encode_header example_header @ pack_I 0 @ pack_I 2) @ encode_apps [empty_app] @ t"
    by (simp add: d_def)
  note dd = this
  have wl: "list_all wf_app [empty_app]" by (simp add: wf_examples)
  have r: "(app_loop d (length [empty_app] + 1) 40 :: (nat, nat) run) =
      (map app_line [empty_app]
         @ fst (app_loop d 1 (40 + length (encode_apps [empty_app])) :: (nat, nat) run),
       snd (app_loop d 1 (40 + length (encode_apps [empty_app])) :: (nat, nat) run))"
    by (rule app_loop_records [OF wl dd])
      (simp add: wf_examples length_encode_header length_pack)
  have n: "length [empty_app] + 1 = 2" "40 + length (encode_apps [empty_app]) = 43"
    by (simp_all add: encode_apps_def length_examples)
  show "(app_loop d 2 40 :: (nat, nat) run) =
       (app_line empty_app # fst (app_loop d 1 43 :: (nat, nat) run),
        snd (app_loop d 1 43 :: (nat, nat) run))"
    using r unfolding n by (simp del: app_loop.simps)
qed

lemma cut_app_loops:
  "(app_loop (encode_header example_header @ pack_I 0 @ pack_I 2 @ encode_apps [empty_app]
      @ [5, 0x41]) 2 40 :: (nat, nat) run) = ([app_line empty_app], Inr 44)"
  "(app_loop (encode_header example_header @ pack_I 0 @ pack_I 2 @ encode_apps [empty_app]
      @ [1, 0x41]) 2 40 :: (nat, nat) run) = ([app_line empty_app], Inr 45)"
proof -
  let ?P = "encode_header example_header @ pack_I 0 @ pack_I 2 @ encode_apps [empty_app]"
  have lp: "length ?P = 43"
    by (simp add: length_encode_header wf_examples length_pack encode_apps_def length_examples)
  have a: "(app_loop (?P @ [5, 0x41]) (Suc 0) 43 :: (nat, nat) run) = ([], Inr (43 + 1))"
    by (rule app_loop_short_name [where P = ?P]) (simp_all only: lp)
  have b: "(app_loop (?P @ [1, 0x41]) (Suc 0) 43 :: (nat, nat) run) = ([], Inr (43 + 2))"
    by (rule app_loop_name_only [where P = ?P]) (simp_all only: lp)
  show "(app_loop (encode_header example_header @ pack_I 0 @ pack_I 2 @ encode_apps [empty_app]
      @ [5, 0x41]) 2 40 :: (nat, nat) run) = ([app_line empty_app], Inr 44)"
    using cut_app_example(7) [OF disjI1 [OF refl]] a by (simp del: app_loop.simps)
  show "(app_loop (encode_header example_header @ pack_I 0 @ pack_I 2 @ encode_apps [empty_app]
      @ [1, 0x41]) 2 40 :: (nat, nat) run) = ([app_line empty_app], Inr 45)"
    using cut_app_example(7) [OF disjI2 [OF refl]] b by (simp del: app_loop.simps)
qed

lemma cut_app_parse:
  assumes "t = [5, 0x41] \<or> t = [1, 0x41]"
    and "(app_loop (encode_header example_header @ pack_I 0 @ pack_I 2
            @ encode_apps [empty_app] @ t) 2 40 :: (nat, nat) run) = (ls', Inr c2)"
  shows "parse_shared_memory utc_fromtimestamp
      (encode_header example_header @ pack_I 0 @ pack_I 2 @ encode_apps [empty_app] @ t) =
     [Title, Rule, Version 1, Generation 42, Timestamp 1700000000000, Blank, SinksHeader 0]
     @ [] @ [Blank, AppsHeader 2] @ ls' @ [Blank, TotalSize 45]"
proof -
  let ?d = "encode_header example_header @ pack_I 0 @ pack_I 2 @ encode_apps [empty_app] @ t"
  note f = cut_app_example [OF assms(1)]
  have clk: "utc_fromtimestamp (le_nat (bytes_slice ?d 12 20)) = Inr 1700000000000"
    unfolding f by (simp add: utc_fromtimestamp_def)
  have l: "(sink_loop ?d (le_nat (bytes_slice ?d 32 36)) 36 :: (nat, nat) run) = ([], Inr 36)"
    unfolding f by simp
  have a: "(app_loop ?d (le_nat (bytes_slice ?d 36 (36 + 4))) (36 + 4) :: (nat, nat) run)
      = (ls', Inr c2)"
    using assms(2) by (simp add: f(6) del: app_loop.simps)
  have "36 \<le> length ?d" "36 + 4 \<le> length ?d" unfolding f by simp_all
  from parse_both_loops [where clock = utc_fromtimestamp, OF this(1) clk l this(2) a]
  show ?thesis unfolding f(1-6) by (simp add: f(6))
qed

lemma parse_encode_snapshot:
  assumes wf: "wf_snapshot h sinks apps" and clock: "clock (timestamp_ms h) = Inr (dt :: 'dt)"
  shows "parse_shared_memory clock (encode_snapshot h sinks apps) =
     header_lines h dt @ [SinksHeader (length sinks)] @ map sink_line (map held sinks)
     @ [Blank, AppsHeader (length apps)] @ map app_line apps
     @ [Blank, TotalSize (length (encode_snapshot h sinks apps))]"
proof -
  let ?data = "encode_snapshot h sinks apps"
  let ?H = "encode_header h"
  let ?tail = "pack_I (length apps) @ encode_apps apps"
  from wf have wfh: "wf_header h" and ns: "length sinks < 2 ^ 32" and na: "length apps < 2 ^ 32"
    and ws: "list_all wf_sink sinks" and wa: "list_all wf_app apps"
    by (simp_all add: wf_snapshot_def)
  have lh: "length ?H = 32" by (rule length_encode_header [OF wfh])
  have d0: "?data = ?H @ (pack_I (length sinks) @ encode_sinks sinks @ ?tail)"
    by (simp add: encode_snapshot_def)
  have d1: "?data = ?H @ pack_I (length sinks) @ (encode_sinks sinks @ ?tail)"
    by (simp add: encode_snapshot_def)
  have d2: "?data = (?H @ pack_I (length sinks)) @ encode_sinks sinks @ ?tail"
    by (simp add: encode_snapshot_def)
  have d3: "?data = (?H @ pack_I (length sinks) @ encode_sinks sinks)
      @ pack_I (length apps) @ encode_apps apps"
    by (simp add: encode_snapshot_def)
  let ?c' = "36 + length (encode_sinks sinks)"
  have cnt: "32 + 4 \<le> length ?data" "le_nat (bytes_slice ?data 32 (32 + 4)) = length sinks"
    using count_at [OF d1 _ ns, of 32] lh by simp_all
  have loop: "(sink_loop ?data (length sinks) (32 + 4) :: ('dt, nat) run) =
      (map sink_line (map held sinks), Inr ?c')"
    using sink_loop_encode [OF ws d2, of 36] lh by (simp add: length_pack)
  have apps: "(apps_section ?data ?c' :: ('dt, unit) run) =
      (AppsHeader (length apps) # map app_line apps @ [Blank, TotalSize (length ?data)], Inr ())"
    by (rule apps_section_encode [OF wa na d3]) (simp add: lh length_pack)
  have "(sinks_section ?data 32 :: ('dt, unit) run) =
      (SinksHeader (length sinks) # map sink_line (map held sinks) @ Blank
         # fst (apps_section ?data ?c' :: ('dt, unit) run), Inr ())"
    using sinks_section_loop [of 32 ?data "map sink_line (map held sinks)" ?c'] cnt loop by simp
  with apps parse_encode_converts [where clock = clock, OF wfh d0 clock] show ?thesis by simp
qed

lemma sink_loop_cut_after_name:
  assumes wf: "wf_sink s" and data: "data = A @ take j (encode_sink s)" and c: "c = length A"
    and lo: "length (encode_string (sink_name s)) \<le> j" and hi: "j < length (encode_sink s)"
  shows "(sink_loop data (Suc n) c :: ('dt, nat) run) =
           ([], Inr (c + length (encode_string (sink_name s))))"
proof -
  let ?N = "encode_string (sink_name s)"
  let ?R = "pack_I (sink_id s) @ pack_f (sink_volume s) @ pack_bool (sink_muted s)"
  have d: "data = A @ ?N @ take (j - length ?N) ?R"
    using lo by (simp add: data encode_sink_def)
  from wf have "wf_string (sink_name s)" by (simp add: wf_sink_def)
  from read_string_encode_string [OF this d c]
  have r: "read_string data c = Inr (Some (sink_name s), c + length ?N)" .
  have "length data = c + j" using hi by (simp add: data c)
  with hi have "c + length ?N + 9 > length data" by (simp add: length_encode_sink)
  with r show ?thesis by (simp add: attempt_simps)
qed

lemma cut_sink_example:
  "length (take 61 (encode_snapshot example_header [example_sink, other_sink] [example_app])) = 61"
  "(sink_loop (take 61 (encode_snapshot example_header [example_sink, other_sink] [example_app]))
      2 36 :: (nat, nat) run) = ([sink_line example_sink], Inr 60)"
proof -
  let ?d = "take 61 (encode_snapshot example_header [example_sink, other_sink] [example_app])"
  show "length ?d = 61"
    by (simp add: encode_snapshot_def length_encode_header wf_examples length_pack
        encode_sinks_def encode_apps_def length_examples)
  have d: "?d = (encode_header example_header @ pack_I 2) @ encode_sink example_sink
      @ take 7 (encode_sink other_sink)"
    by (simp add: encode_snapshot_def length_encode_header wf_examples length_pack
        encode_sinks_def length_examples numeral_2_eq_2)
  have d': "?d = (encode_header example_header @ pack_I 2 @ encode_sink example_sink)
      @ take 7 (encode_sink other_sink)"
    using d by simp
  have n: "length (encode_string (sink_name other_sink)) = 6"
    by (simp add: length_encode_string encode_utf8_def encode_cp_def other_sink_def)
  have "(sink_loop ?d (Suc 1) 36 :: (nat, nat) run) =
      emit (sink_line (held example_sink)) (sink_loop ?d 1 (36 + length (encode_sink example_sink)))"
    by (rule sink_loop_step [OF wf_examples(3) d])
      (simp add: length_encode_header wf_examples length_pack)
  moreover have "(sink_loop ?d (Suc 0) 54 :: (nat, nat) run) =
      ([], Inr (54 + length (encode_string (sink_name other_sink))))"
    by (rule sink_loop_cut_after_name [OF wf_examples(4) d'])
      (simp_all add: length_encode_header wf_examples length_pack length_examples n)
  ultimately show "(sink_loop ?d 2 36 :: (nat, nat) run) = ([sink_line example_sink], Inr 60)"
    by (simp add: length_examples n held_examples emit_simps numeral_2_eq_2 del: sink_loop.simps)
qed

subsection \<open>UTF-8: what the lenient decoder keeps and drops\<close>

lemma of_nat_unat_byte: "unat (b :: byte) = n \<Longrightarrow> of_nat n = b"
  by auto

lemma step_bounds: "utf8_step (b # bs) = (r, k) \<Longrightarrow> 1 \<le> k \<and> k \<le> Suc (length bs)"
  by (auto simp add: utf8_step_def Let_def split: list.splits if_splits)

lemma step_append:
  "\<not> is_cont x \<Longrightarrow> utf8_step (b # bs @ x # rest) = utf8_step (b # bs)"
  by (auto simp add: utf8_step_def Let_def split: list.splits if_splits
      simp add: append_eq_Cons_conv)

lemma decode_restart:
  assumes "\<not> is_cont x"
  shows "decode_utf8 h (xs @ x # rest) = decode_utf8 h xs @ decode_utf8 h (x # rest)"
proof (induction xs rule: length_induct)
  case (1 xs)
  show ?case
  proof (cases xs)
    case Nil
    then show ?thesis by simp
  next
    case (Cons b bs)
    obtain r k where s: "utf8_step (b # bs) = (r, k)" by (cases "utf8_step (b # bs)")
    then have s': "utf8_step (b # bs @ x # rest) = (r, k)"
      using step_append [OF assms] by simp
    from step_bounds [OF s] have k: "k - 1 \<le> length bs" by arith
    have "length (drop (k - 1) bs) < length xs" using Cons by simp
    with 1 have ih: "decode_utf8 h (drop (k - 1) bs @ x # rest) =
        decode_utf8 h (drop (k - 1) bs) @ decode_utf8 h (x # rest)"
      by blast
    have "drop (k - 1) (bs @ x # rest) = drop (k - 1) bs @ x # rest" using k by simp
    with Cons s s' ih show ?thesis by simp
  qed
qed

lemma decode_conts: "list_all is_cont cs \<Longrightarrow> decode_utf8 Ignore cs = []"
proof (induction cs)
  case Nil
  show ?case by simp
next
  case (Cons c cs)
  then have "utf8_step (c # cs) = (None, 1)"
    by (intro invalid_start) (simp add: is_cont_def)
  with Cons show ?case by simp
qed

lemma digit_mod: "l < 64 \<Longrightarrow> (q * 64 + l) mod 64 = (l::nat)"
  by simp

lemma digit_div: "l < 64 \<Longrightarrow> (q * 64 + l) div 64 = (q::nat)"
  by simp

lemma digits3:
  assumes "m < 64" "l < 64"
  shows "(a * 4096 + m * 64 + l) div 4096 = (a::nat)" "(a * 4096 + m * 64 + l) div 64 mod 64 = m"
    "(a * 4096 + m * 64 + l) mod 64 = l"
proof -
  have e: "a * 4096 + m * 64 + l = (a * 64 + m) * 64 + l" by simp
  show "(a * 4096 + m * 64 + l) mod 64 = l"
    using assms by (simp only: e digit_mod)
  show "(a * 4096 + m * 64 + l) div 64 mod 64 = m"
    using assms by (simp only: e digit_div digit_mod)
  show "(a * 4096 + m * 64 + l) div 4096 = a"
    using assms by (simp only: div4096 e digit_div)
qed

lemma digits4:
  assumes "m < 64" "n < 64" "l < 64"
  shows "(a * 262144 + m * 4096 + n * 64 + l) div 262144 = (a::nat)"
    "(a * 262144 + m * 4096 + n * 64 + l) div 4096 mod 64 = m"
    "(a * 262144 + m * 4096 + n * 64 + l) div 64 mod 64 = n"
    "(a * 262144 + m * 4096 + n * 64 + l) mod 64 = l"
proof -
  have e: "a * 262144 + m * 4096 + n * 64 + l = ((a * 64 + m) * 64 + n) * 64 + l" by simp
  show "(a * 262144 + m * 4096 + n * 64 + l) mod 64 = l"
    using assms by (simp only: e digit_mod)
  show "(a * 262144 + m * 4096 + n * 64 + l) div 64 mod 64 = n"
    using assms by (simp only: e digit_div digit_mod)
  show "(a * 262144 + m * 4096 + n * 64 + l) div 4096 mod 64 = m"
    using assms by (simp only: div4096 e digit_div digit_mod)
  show "(a * 262144 + m * 4096 + n * 64 + l) div 262144 = a"
    using assms by (simp only: div262144 e digit_div)
qed

lemma range2:
  assumes "2 \<le> a" "a < 32" "l < 64"
  shows "0x80 \<le> a * 64 + l" "a * 64 + l < (0x800::nat)"
  using assms by linarith+

lemma range3:
  assumes "a < 16" "m < 64" "l < 64" "a = 0 \<longrightarrow> 32 \<le> m" "a = 13 \<longrightarrow> m < 32"
  shows "0x800 \<le> a * 4096 + m * 64 + l" "a * 4096 + m * 64 + l < (0x10000::nat)"
    "a * 4096 + m * 64 + l < 0xD800 \<or> 0xE000 \<le> a * 4096 + m * 64 + l"
proof -
  show "0x800 \<le> a * 4096 + m * 64 + l"
  proof (cases "a = 0")
    case True
    with assms show ?thesis by simp
  next
    case False
    then have "1 \<le> a" by simp
    then show ?thesis by linarith
  qed
  show "a * 4096 + m * 64 + l < 0x10000" using assms by linarith
  consider "a \<le> 12" | "a = 13" | "14 \<le> a" by linarith
  then show "a * 4096 + m * 64 + l < 0xD800 \<or> 0xE000 \<le> a * 4096 + m * 64 + l"
  proof cases
    case 1
    with assms show ?thesis by linarith
  next
    case 2
    with assms have "m < 32" by simp
    with 2 assms show ?thesis by simp
  next
    case 3
    then show ?thesis by linarith
  qed
qed

lemma range4:
  assumes "a < 5" "m < 64" "n < 64" "l < 64" "a = 0 \<longrightarrow> 16 \<le> m" "a = 4 \<longrightarrow> m < 16"
  shows "0x10000 \<le> a * 262144 + m * 4096 + n * 64 + l"
    "a * 262144 + m * 4096 + n * 64 + l < (0x110000::nat)"
proof -
  show "0x10000 \<le> a * 262144 + m * 4096 + n * 64 + l"
  proof (cases "a = 0")
    case True
    with assms have "16 \<le> m" by simp
    then show ?thesis by linarith
  next
    case False
    then have "1 \<le> a" by simp
    then show ?thesis by linarith
  qed
  show "a * 262144 + m * 4096 + n * 64 + l < 0x110000"
  proof (cases "a = 4")
    case True
    with assms have "m < 16" by simp
    with True assms show ?thesis by simp
  next
    case False
    with assms have "a \<le> 3" by simp
    with assms show ?thesis by linarith
  qed
qed

lemma enc1: "unat (b :: byte) < 0x80 \<Longrightarrow> encode_cp (unat b) = [b] \<and> scalar (unat b)"
  by (simp add: encode_cp_def scalar_def)

lemma enc2:
  assumes "unat (b1 :: byte) = 0xC0 + a" "unat (b2 :: byte) = 0x80 + l" "2 \<le> a" "a < 32" "l < 64"
  shows "encode_cp (a * 64 + l) = [b1, b2] \<and> scalar (a * 64 + l)"
proof -
  have b: "of_nat (0xC0 + a) = b1" "of_nat (0x80 + l) = b2"
    using assms by (simp_all only: of_nat_unat_byte)
  have d: "(a * 64 + l) div 64 = a" "(a * 64 + l) mod 64 = l"
    using assms by (simp_all only: digit_div digit_mod)
  note r = range2 [OF assms(3,4,5)]
  have "scalar (a * 64 + l)" using r unfolding scalar_def by auto
  then show ?thesis
    using r assms(5) by (simp add: encode_cp_def d b del: of_nat_add of_nat_numeral)
qed

lemma enc3:
  assumes "unat (b1 :: byte) = 0xE0 + a" "unat (b2 :: byte) = 0x80 + m"
    "unat (b3 :: byte) = 0x80 + l" "a < 16" "m < 64" "l < 64"
    "a = 0 \<longrightarrow> 32 \<le> m" "a = 13 \<longrightarrow> m < 32"
  shows "encode_cp (a * 4096 + m * 64 + l) = [b1, b2, b3] \<and> scalar (a * 4096 + m * 64 + l)"
proof -
  let ?cp = "a * 4096 + m * 64 + l"
  have b: "of_nat (0xE0 + a) = b1" "of_nat (0x80 + m) = b2" "of_nat (0x80 + l) = b3"
    using assms by (simp_all only: of_nat_unat_byte)
  note d = digits3 [OF assms(5,6), of a]
  note r = range3 [OF assms(4,5,6,7,8)]
  have "scalar ?cp" using r(2,3) unfolding scalar_def by auto
  then show ?thesis
    using r(1,2) assms(5,6)
    by (simp add: encode_cp_def d b del: of_nat_add of_nat_numeral)
qed

lemma enc4:
  assumes "unat (b1 :: byte) = 0xF0 + a" "unat (b2 :: byte) = 0x80 + m"
    "unat (b3 :: byte) = 0x80 + n" "unat (b4 :: byte) = 0x80 + l"
    "a < 5" "m < 64" "n < 64" "l < 64" "a = 0 \<longrightarrow> 16 \<le> m" "a = 4 \<longrightarrow> m < 16"
  shows "encode_cp (a * 262144 + m * 4096 + n * 64 + l) = [b1, b2, b3, b4]
     \<and> scalar (a * 262144 + m * 4096 + n * 64 + l)"
proof -
  let ?cp = "a * 262144 + m * 4096 + n * 64 + l"
  have b: "of_nat (0xF0 + a) = b1" "of_nat (0x80 + m) = b2" "of_nat (0x80 + n) = b3"
    "of_nat (0x80 + l) = b4"
    using assms by (simp_all only: of_nat_unat_byte)
  note d = digits4 [OF assms(6,7,8), of a]
  note r = range4 [OF assms(5,6,7,8,9,10)]
  have "scalar ?cp" using r unfolding scalar_def by auto
  then show ?thesis
    using r assms(6,7,8)
    by (simp add: encode_cp_def d b del: of_nat_add of_nat_numeral)
qed

lemma step_Some_cases:
  assumes "utf8_step (b # bs) = (Some cp, k)"
  shows "(k = 1 \<and> unat b < 0x80 \<and> cp = unat b)
    \<or> (\<exists>b2 r. k = 2 \<and> bs = b2 # r \<and> 0xC2 \<le> unat b \<and> unat b < 0xE0 \<and> is_cont b2
          \<and> cp = (unat b - 0xC0) * 64 + (unat b2 - 0x80))
    \<or> (\<exists>b2 b3 r. k = 3 \<and> bs = b2 # b3 # r \<and> 0xE0 \<le> unat b \<and> unat b < 0xF0
          \<and> is_cont b2 \<and> is_cont b3
          \<and> (unat b = 0xE0 \<longrightarrow> 0xA0 \<le> unat b2) \<and> (unat b = 0xED \<longrightarrow> unat b2 < 0xA0)
          \<and> cp = (unat b - 0xE0) * 4096 + (unat b2 - 0x80) * 64 + (unat b3 - 0x80))
    \<or> (\<exists>b2 b3 b4 r. k = 4 \<and> bs = b2 # b3 # b4 # r \<and> 0xF0 \<le> unat b \<and> unat b < 0xF5
          \<and> is_cont b2 \<and> is_cont b3 \<and> is_cont b4
          \<and> (unat b = 0xF0 \<longrightarrow> 0x90 \<le> unat b2) \<and> (unat b = 0xF4 \<longrightarrow> unat b2 < 0x90)
          \<and> cp = (unat b - 0xF0) * 262144 + (unat b2 - 0x80) * 4096
                 + (unat b3 - 0x80) * 64 + (unat b4 - 0x80))"
  using assms
  by (auto simp add: utf8_step_def Let_def split: list.splits if_splits)

lemma step_sound:
  assumes "utf8_step (b # bs) = (Some cp, k)"
  shows "scalar cp \<and> take k (b # bs) = encode_cp cp"
  using step_Some_cases [OF assms]
proof (elim disjE exE conjE)
  assume "k = 1" "unat b < 0x80" "cp = unat b"
  then show ?thesis using enc1 [of b] by simp
next
  fix b2 r
  assume h: "k = 2" "bs = b2 # r" "0xC2 \<le> unat b" "unat b < 0xE0" "is_cont b2"
    "cp = (unat b - 0xC0) * 64 + (unat b2 - 0x80)"
  have "encode_cp ((unat b - 0xC0) * 64 + (unat b2 - 0x80)) = [b, b2]
      \<and> scalar ((unat b - 0xC0) * 64 + (unat b2 - 0x80))"
    using h by (intro enc2) (auto simp add: is_cont_def)
  with h show ?thesis by simp
next
  fix b2 b3 r
  assume h: "k = 3" "bs = b2 # b3 # r" "0xE0 \<le> unat b" "unat b < 0xF0" "is_cont b2"
    "is_cont b3" "unat b = 0xE0 \<longrightarrow> 0xA0 \<le> unat b2" "unat b = 0xED \<longrightarrow> unat b2 < 0xA0"
    "cp = (unat b - 0xE0) * 4096 + (unat b2 - 0x80) * 64 + (unat b3 - 0x80)"
  have "encode_cp ((unat b - 0xE0) * 4096 + (unat b2 - 0x80) * 64 + (unat b3 - 0x80))
        = [b, b2, b3]
      \<and> scalar ((unat b - 0xE0) * 4096 + (unat b2 - 0x80) * 64 + (unat b3 - 0x80))"
    using h by (intro enc3) (auto simp add: is_cont_def)
  with h show ?thesis by simp
next
  fix b2 b3 b4 r
  assume h: "k = 4" "bs = b2 # b3 # b4 # r" "0xF0 \<le> unat b" "unat b < 0xF5" "is_cont b2"
    "is_cont b3" "is_cont b4" "unat b = 0xF0 \<longrightarrow> 0x90 \<le> unat b2"
    "unat b = 0xF4 \<longrightarrow> unat b2 < 0x90"
    "cp = (unat b - 0xF0) * 262144 + (unat b2 - 0x80) * 4096
          + (unat b3 - 0x80) * 64 + (unat b4 - 0x80)"
  have "encode_cp ((unat b - 0xF0) * 262144 + (unat b2 - 0x80) * 4096
          + (unat b3 - 0x80) * 64 + (unat b4 - 0x80)) = [b, b2, b3, b4]
      \<and> scalar ((unat b - 0xF0) * 262144 + (unat b2 - 0x80) * 4096
          + (unat b3 - 0x80) * 64 + (unat b4 - 0x80))"
    using h by (intro enc4) (auto simp add: is_cont_def)
  with h show ?thesis by simp
qed

lemma list_all_drop: "list_all P xs \<Longrightarrow> list_all P (drop n xs)"
  by (auto simp add: list_all_iff dest: in_set_dropD)

lemma decode_kept:
  "scalar cp \<Longrightarrow> list_all is_cont cs \<Longrightarrow> decode_utf8 Ignore (encode_cp cp @ cs) = [cp]"
  by (simp add: decode_encode_cp decode_conts)

lemma decode_chunk:
  assumes "list_all is_cont cs"
  shows "decode_utf8 Ignore (b # cs) = []
    \<or> (\<exists>cp cs'. scalar cp \<and> b # cs = encode_cp cp @ cs' \<and> decode_utf8 Ignore (b # cs) = [cp])"
proof -
  obtain r k where s: "utf8_step (b # cs) = (r, k)" by (cases "utf8_step (b # cs)")
  have rest: "decode_utf8 Ignore (drop (k - 1) cs) = []"
    using assms by (intro decode_conts list_all_drop)
  show ?thesis
  proof (cases r)
    case None
    with s rest show ?thesis by simp
  next
    case (Some cp)
    from step_sound [OF s [unfolded Some]]
    have sc: "scalar cp" and t: "take k (b # cs) = encode_cp cp" by simp_all
    have "b # cs = encode_cp cp @ drop k (b # cs)"
      using append_take_drop_id [of k "b # cs"] t by simp
    moreover have "decode_utf8 Ignore (b # cs) = [cp]"
      using s Some rest by simp
    ultimately show ?thesis using sc by blast
  qed
qed

section \<open>The claims\<close>

text \<open>
  C1 (amended). Round trip: for every snapshot built per the layout (32-byte header,
  sink count \<open>N\<close>, \<open>N\<close> well-formed sink records, app count \<open>M\<close>, \<open>M\<close> well-formed app
  records) whose header timestamp converts to a local \<open>datetime\<close> without raising, the
  run prints the header, then exactly the \<open>N\<close> sinks and the \<open>M\<close> apps in their original
  order, then the total size. Every name, id and flag is as written; a volume is as
  written unless it is a signalling NaN, which is read as the quiet NaN with the same
  payload.
\<close>

theorem roundtrip:
  assumes wf: "wf_snapshot h sinks apps" and clock: "clock (timestamp_ms h) = Inr (dt :: 'dt)"
  shows "parse_shared_memory clock (encode_snapshot h sinks apps) =
       header_lines h dt @ [SinksHeader (length sinks)] @ map sink_line (map held sinks)
       @ [Blank, AppsHeader (length apps)] @ map app_line apps
       @ [Blank, TotalSize (length (encode_snapshot h sinks apps))]
     \<and> (list_all (\<lambda>s. \<not> signalling (sink_volume s)) sinks \<longrightarrow>
          parse_shared_memory clock (encode_snapshot h sinks apps) =
            header_lines h dt @ [SinksHeader (length sinks)] @ map sink_line sinks
            @ [Blank, AppsHeader (length apps)] @ map app_line apps
            @ [Blank, TotalSize (length (encode_snapshot h sinks apps))])"
proof (intro conjI impI)
  note r = parse_encode_snapshot [where clock = clock, OF wf clock]
  show "parse_shared_memory clock (encode_snapshot h sinks apps) =
       header_lines h dt @ [SinksHeader (length sinks)] @ map sink_line (map held sinks)
       @ [Blank, AppsHeader (length apps)] @ map app_line apps
       @ [Blank, TotalSize (length (encode_snapshot h sinks apps))]"
    by (rule r)
  assume "list_all (\<lambda>s. \<not> signalling (sink_volume s)) sinks"
  then have e: "map held sinks = sinks" by (rule map_held_unchanged)
  show "parse_shared_memory clock (encode_snapshot h sinks apps) =
       header_lines h dt @ [SinksHeader (length sinks)] @ map sink_line sinks
       @ [Blank, AppsHeader (length apps)] @ map app_line apps
       @ [Blank, TotalSize (length (encode_snapshot h sinks apps))]"
    using r unfolding e .
qed

theorem roundtrip_witness:
  "wf_snapshot example_header [example_sink, other_sink] [example_app] \<and>
   utc_fromtimestamp (timestamp_ms example_header) = Inr 1700000000000 \<and>
   list_all (\<lambda>s. \<not> signalling (sink_volume s)) [example_sink, other_sink] \<and>
   parse_shared_memory utc_fromtimestamp
     (encode_snapshot example_header [example_sink, other_sink] [example_app]) =
     [Title, Rule, Version 1, Generation 42, Timestamp 1700000000000, Blank,
      SinksHeader 2,
      SinkLine [0x53, 0x70, 0x65, 0x61, 0x6B, 0x65, 0x72, 0x73] 7 0x3F400000 False,
      SinkLine [0x43, 0x61, 0x66, 0xE9] 9 0x3F800000 True,
      Blank, AppsHeader 1,
      AppLine [0x66, 0x69, 0x72, 0x65, 0x66, 0x6F, 0x78]
        [0x53, 0x70, 0x65, 0x61, 0x6B, 0x65, 0x72, 0x73] True,
      Blank, TotalSize 91]"
proof -
  have wf: "wf_snapshot example_header [example_sink, other_sink] [example_app]"
    by (simp add: wf_snapshot_def wf_examples)
  have q: "list_all (\<lambda>s. \<not> signalling (sink_volume s)) [example_sink, other_sink]"
    by (simp add: held_examples)
  have len: "length (encode_snapshot example_header [example_sink, other_sink] [example_app]) = 91"
    by (simp add: encode_snapshot_def length_encode_header wf_examples length_pack
        encode_sinks_def encode_apps_def length_examples)
  show ?thesis
    using roundtrip [where clock = utc_fromtimestamp, OF wf utc_examples(1)] wf
      utc_examples(1) q
    by (simp add: len header_lines_def header_examples line_examples held_examples)
qed

theorem roundtrip_counterexample:
  "wf_snapshot late_header [example_sink, other_sink] [example_app] \<and>
   parse_shared_memory utc_fromtimestamp
     (encode_snapshot late_header [example_sink, other_sink] [example_app]) =
     [Title, Rule, Version 1, Generation 42, ErrorLine ValueError] \<and>
   wf_snapshot example_header [nan_sink] [] \<and>
   sink_volume nan_sink = 0x7FA00000 \<and>
   parse_shared_memory utc_fromtimestamp (encode_snapshot example_header [nan_sink] []) =
     [Title, Rule, Version 1, Generation 42, Timestamp 1700000000000, Blank,
      SinksHeader 1,
      SinkLine [0x53, 0x70, 0x65, 0x61, 0x6B, 0x65, 0x72, 0x73] 7 0x7FE00000 False,
      Blank, AppsHeader 0, Blank, TotalSize 58]"
proof -
  have "encode_snapshot late_header [example_sink, other_sink] [example_app] =
      encode_header late_header @ (pack_I (length [example_sink, other_sink])
        @ encode_sinks [example_sink, other_sink]
        @ pack_I (length [example_app]) @ encode_apps [example_app])"
    by (simp add: encode_snapshot_def)
  from parse_encode_raises [where clock = utc_fromtimestamp, OF wf_examples(2) this utc_examples(2)]
  have late: "parse_shared_memory utc_fromtimestamp
     (encode_snapshot late_header [example_sink, other_sink] [example_app]) =
     [Title, Rule, Version 1, Generation 42, ErrorLine ValueError]"
    by (simp add: header_examples)
  have wf: "wf_snapshot example_header [nan_sink] []"
    by (simp add: wf_snapshot_def wf_examples nan_examples)
  have len: "length (encode_snapshot example_header [nan_sink] []) = 58"
    by (simp add: encode_snapshot_def length_encode_header wf_examples length_pack
        encode_sinks_def encode_apps_def nan_examples)
  have nan: "parse_shared_memory utc_fromtimestamp
       (encode_snapshot example_header [nan_sink] []) =
     [Title, Rule, Version 1, Generation 42, Timestamp 1700000000000, Blank,
      SinksHeader 1,
      SinkLine [0x53, 0x70, 0x65, 0x61, 0x6B, 0x65, 0x72, 0x73] 7 0x7FE00000 False,
      Blank, AppsHeader 0, Blank, TotalSize 58]"
    using parse_encode_snapshot [where clock = utc_fromtimestamp, OF wf utc_examples(1)]
    by (simp add: len header_lines_def header_examples nan_examples)
  have "sink_volume nan_sink = 0x7FA00000" by (simp add: nan_sink_def)
  with late nan wf show ?thesis
    by (simp add: wf_snapshot_def wf_examples)
qed

text \<open>
  C2 (amended). Truncation: cut a well-formed buffer whose header timestamp converts
  without raising at any byte position \<open>p\<close>. The sink lines printed are exactly those of
  the sinks whose encodings end at or before \<open>p\<close>, in order and as the run holds them;
  no line of the exception handler is printed; and from \<open>p = 36\<close> on the sink loop
  returns those sinks and a cursor, and the run is the header, the sink heading, those
  sinks, a blank line and then the app section started at that cursor.
\<close>

theorem truncated_sinks:
  assumes wf: "wf_snapshot h sinks apps" and clock: "clock (timestamp_ms h) = Inr (dt :: 'dt)"
  shows "filter is_sink_line
           (parse_shared_memory clock (take p (encode_snapshot h sinks apps)))
         = map sink_line (map held (complete_before (p - 36) sinks))
     \<and> filter is_error_line
           (parse_shared_memory clock (take p (encode_snapshot h sinks apps))) = []
     \<and> (36 \<le> p \<longrightarrow>
          (\<exists>c'. (sink_loop (take p (encode_snapshot h sinks apps)) (length sinks) 36
                   :: ('dt, nat) run)
                = (map sink_line (map held (complete_before (p - 36) sinks)), Inr c')
             \<and> parse_shared_memory clock (take p (encode_snapshot h sinks apps)) =
                header_lines h dt @ [SinksHeader (length sinks)]
                @ map sink_line (map held (complete_before (p - 36) sinks)) @ [Blank]
                @ fst (apps_section (take p (encode_snapshot h sinks apps)) c'
                         :: ('dt, unit) run)))"
proof -
  let ?buf = "encode_snapshot h sinks apps"
  let ?data = "take p ?buf"
  let ?H = "encode_header h"
  let ?C = "pack_I (length sinks)"
  let ?R = "pack_I (length apps) @ encode_apps apps"
  from wf have wfh: "wf_header h" and ns: "length sinks < 2 ^ 32"
    and ws: "list_all wf_sink sinks"
    by (simp_all add: wf_snapshot_def)
  have lh: "length ?H = 32" by (rule length_encode_header [OF wfh])
  have buf: "?buf = ?H @ ?C @ encode_sinks sinks @ ?R"
    by (simp add: encode_snapshot_def)
  consider (small) "p < 32" | (nocount) "32 \<le> p" "p < 36" | (loop) "36 \<le> p" by linarith
  then show ?thesis
  proof cases
    case small
    then have "length ?data < 32" by simp
    then have "parse_shared_memory clock ?data = [TooSmall]"
      by (simp add: parse_shared_memory_def try_body_def emit_simps finish_def)
    with small show ?thesis by (simp add: complete_before_0)
  next
    case nocount
    have d: "?data = ?H @ take (p - 32) (?C @ encode_sinks sinks @ ?R)"
      using nocount lh by (simp add: buf)
    have "length ?data < 32 + 4"
      using nocount lh by (simp add: buf length_pack)
    then have "(sinks_section ?data 32 :: ('dt, unit) run) = ([NoSinkData], Inr ())"
      by (rule sinks_section_short)
    with parse_encode_converts [where clock = clock, OF wfh d clock] nocount show ?thesis
      by (simp add: header_lines_def complete_before_0)
  next
    case loop
    have d: "?data = ?H @ (?C @ take (p - 36) (encode_sinks sinks @ ?R))"
      using loop lh by (simp add: buf length_pack)
    have d1: "?data = ?H @ ?C @ take (p - 36) (encode_sinks sinks @ ?R)"
      using d by simp
    have d2: "?data = (?H @ ?C) @ take (p - 36) (encode_sinks sinks @ ?R)"
      using d by simp
    have cnt: "32 + 4 \<le> length ?data" "le_nat (bytes_slice ?data 32 (32 + 4)) = length sinks"
      using count_at [OF d1 _ ns, of 32] lh by simp_all
    obtain c' where l: "(sink_loop ?data (length sinks) (32 + 4) :: ('dt, nat) run)
        = (map sink_line (map held (complete_before (p - 36) sinks)), Inr c')"
      using sink_loop_truncated [OF ws d2, of 36] lh by (auto simp add: length_pack)
    have sec: "(sinks_section ?data 32 :: ('dt, unit) run) =
        (SinksHeader (length sinks) # map sink_line (map held (complete_before (p - 36) sinks)) @ Blank
           # fst (apps_section ?data c' :: ('dt, unit) run), Inr ())"
      using sinks_section_loop [of 32 ?data _ c'] cnt l by simp
    have out: "parse_shared_memory clock ?data =
        header_lines h dt @ [SinksHeader (length sinks)]
        @ map sink_line (map held (complete_before (p - 36) sinks)) @ [Blank]
        @ fst (apps_section ?data c' :: ('dt, unit) run)"
      using parse_encode_converts [where clock = clock, OF wfh d clock] sec by simp
    have rest: "filter is_sink_line (fst (apps_section ?data c' :: ('dt, unit) run)) = []"
      "filter is_error_line (fst (apps_section ?data c' :: ('dt, unit) run)) = []"
      by (simp_all add: apps_section_lines)
    have "filter is_sink_line (parse_shared_memory clock ?data)
        = map sink_line (map held (complete_before (p - 36) sinks))"
      unfolding out by (simp add: header_lines_def filter_sink_lines rest del: map_map)
    moreover have "filter is_error_line (parse_shared_memory clock ?data) = []"
      unfolding out by (simp add: header_lines_def filter_error_sink_lines rest del: map_map)
    moreover have "(sink_loop ?data (length sinks) 36 :: ('dt, nat) run)
        = (map sink_line (map held (complete_before (p - 36) sinks)), Inr c')"
      using l by simp
    ultimately show ?thesis using out loop by blast
  qed
qed

theorem truncated_sinks_witness:
  "wf_snapshot example_header [example_sink, other_sink] [example_app] \<and>
   utc_fromtimestamp (timestamp_ms example_header) = Inr 1700000000000 \<and>
   complete_before (61 - 36) [example_sink, other_sink] = [example_sink] \<and>
   filter is_sink_line (parse_shared_memory utc_fromtimestamp
     (take 61 (encode_snapshot example_header [example_sink, other_sink] [example_app]))) =
     [SinkLine [0x53, 0x70, 0x65, 0x61, 0x6B, 0x65, 0x72, 0x73] 7 0x3F400000 False] \<and>
   filter is_error_line (parse_shared_memory utc_fromtimestamp
     (take 61 (encode_snapshot example_header [example_sink, other_sink] [example_app]))) = [] \<and>
   (36 :: nat) \<le> 61 \<and>
   (sink_loop (take 61 (encode_snapshot example_header [example_sink, other_sink] [example_app]))
      2 36 :: (nat, nat) run) =
     ([SinkLine [0x53, 0x70, 0x65, 0x61, 0x6B, 0x65, 0x72, 0x73] 7 0x3F400000 False], Inr 60) \<and>
   parse_shared_memory utc_fromtimestamp
     (take 61 (encode_snapshot example_header [example_sink, other_sink] [example_app])) =
     [Title, Rule, Version 1, Generation 42, Timestamp 1700000000000, Blank,
      SinksHeader 2,
      SinkLine [0x53, 0x70, 0x65, 0x61, 0x6B, 0x65, 0x72, 0x73] 7 0x3F400000 False,
      Blank, NoAppData]"
proof -
  let ?d = "take 61 (encode_snapshot example_header [example_sink, other_sink] [example_app])"
  have wf: "wf_snapshot example_header [example_sink, other_sink] [example_app]"
    by (simp add: wf_snapshot_def wf_examples)
  have cb: "complete_before (61 - 36) [example_sink, other_sink] = [example_sink]"
    by (simp add: length_examples)
  have apps: "(apps_section ?d 60 :: (nat, unit) run) = ([NoAppData], Inr ())"
    by (rule apps_section_short) (simp add: cut_sink_example(1))
  have n: "length [example_sink, other_sink] = 2" by simp
  note t = truncated_sinks [where clock = utc_fromtimestamp and p = 61, OF wf utc_examples(1),
      unfolded n cb]
  from t have sinks: "filter is_sink_line (parse_shared_memory utc_fromtimestamp ?d) =
      map sink_line (map held [example_sink])"
    and errors: "filter is_error_line (parse_shared_memory utc_fromtimestamp ?d) = []"
    by blast+
  from t obtain c' where
    c: "(sink_loop ?d 2 36 :: (nat, nat) run) = (map sink_line (map held [example_sink]), Inr c')"
    and out: "parse_shared_memory utc_fromtimestamp ?d =
      header_lines example_header 1700000000000 @ [SinksHeader 2]
      @ map sink_line (map held [example_sink]) @ [Blank]
      @ fst (apps_section ?d c' :: (nat, unit) run)"
    by auto
  from c have c': "c' = 60" unfolding cut_sink_example(2) by simp
  have loop: "(sink_loop ?d 2 36 :: (nat, nat) run) =
     ([SinkLine [0x53, 0x70, 0x65, 0x61, 0x6B, 0x65, 0x72, 0x73] 7 0x3F400000 False], Inr 60)"
    unfolding cut_sink_example(2) by (simp add: line_examples)
  have full: "parse_shared_memory utc_fromtimestamp ?d =
     [Title, Rule, Version 1, Generation 42, Timestamp 1700000000000, Blank,
      SinksHeader 2,
      SinkLine [0x53, 0x70, 0x65, 0x61, 0x6B, 0x65, 0x72, 0x73] 7 0x3F400000 False,
      Blank, NoAppData]"
    unfolding out c' apps
    by (simp add: header_lines_def header_examples held_examples line_examples)
  have s: "filter is_sink_line (parse_shared_memory utc_fromtimestamp ?d) =
     [SinkLine [0x53, 0x70, 0x65, 0x61, 0x6B, 0x65, 0x72, 0x73] 7 0x3F400000 False]"
    unfolding sinks by (simp add: held_examples line_examples)
  have "(36 :: nat) \<le> 61" by simp
  with wf utc_examples(1) cb s errors loop full show ?thesis by blast
qed

theorem truncated_sinks_counterexample:
  "wf_snapshot late_header [example_sink, other_sink] [example_app] \<and>
   complete_before (61 - 36) [example_sink, other_sink] = [example_sink] \<and>
   parse_shared_memory utc_fromtimestamp
     (take 61 (encode_snapshot late_header [example_sink, other_sink] [example_app])) =
     [Title, Rule, Version 1, Generation 42, ErrorLine ValueError]"
proof -
  have cb: "complete_before (61 - 36) [example_sink, other_sink] = [example_sink]"
    by (simp add: length_examples)
  have "take 61 (encode_snapshot late_header [example_sink, other_sink] [example_app]) =
     encode_header late_header @ take (61 - 32)
       (pack_I (length [example_sink, other_sink]) @ encode_sinks [example_sink, other_sink]
        @ pack_I (length [example_app]) @ encode_apps [example_app])"
    by (rule take_encode_snapshot [OF wf_examples(2)]) simp
  from parse_encode_raises [where clock = utc_fromtimestamp, OF wf_examples(2) this utc_examples(2)]
  show ?thesis using cb by (simp add: wf_snapshot_def wf_examples header_examples)
qed

text \<open>
  C3. No read leaves the buffer, whatever the bytes and whatever the counts say: the
  string helper, the sink loop and the app loop (for any number of iterations, also one
  larger than the number of records present) return without an exception, with the cursor
  inside the buffer or where it started; the only exception that can escape the \<open>try\<close>
  block is the one the timestamp conversion raised.
\<close>

theorem no_out_of_bounds:
  "(\<exists>r c'. read_string data c = Inr (r, c') \<and> c' \<le> max c (length data)) \<and>
   (\<exists>out c'. (sink_loop data n c :: ('dt, nat) run) = (out, Inr c')
       \<and> c' \<le> max c (length data)) \<and>
   (\<exists>out c'. (app_loop data n c :: ('dt, nat) run) = (out, Inr c')
       \<and> c' \<le> max c (length data)) \<and>
   (\<forall>e. snd (try_body (clock :: nat \<Rightarrow> exn + 'dt) data) = Inl e \<longrightarrow>
       32 \<le> length data \<and> clock (le_nat (bytes_slice data 12 20)) = Inl e)"
  using read_string_total sink_loop_total app_loop_total try_body_raises by blast

theorem no_out_of_bounds_witness:
  "snd (try_body utc_fromtimestamp (encode_snapshot late_header [example_sink] [example_app]))
     = Inl ValueError \<and>
   32 \<le> length (encode_snapshot late_header [example_sink] [example_app]) \<and>
   utc_fromtimestamp
     (le_nat (bytes_slice (encode_snapshot late_header [example_sink] [example_app]) 12 20))
     = Inl ValueError \<and>
   (sink_loop (encode_header example_header @ pack_I 3) 3 36 :: (nat, nat) run)
     = ([], Inr 36)"
proof -
  let ?d = "encode_snapshot late_header [example_sink] [example_app]"
  have d: "?d = encode_header late_header @ (pack_I (length [example_sink])
      @ encode_sinks [example_sink] @ pack_I (length [example_app]) @ encode_apps [example_app])"
    by (simp add: encode_snapshot_def)
  have r: "snd (try_body utc_fromtimestamp ?d) = Inl ValueError"
    by (rule try_body_encode_raises [where clock = utc_fromtimestamp,
          OF wf_examples(2) d utc_examples(2)])
  have l: "(sink_loop (encode_header example_header @ pack_I 3) 3 36 :: (nat, nat) run)
      = ([], Inr 36)"
    by (rule sink_loop_at_end) (simp only: count_only_example(1))
  show ?thesis
    using no_out_of_bounds [where clock = utc_fromtimestamp and data = ?d] r l by blast
qed

text \<open>
  C4. A buffer shorter than 32 bytes: the run prints the single line
  \<open>File too small to contain valid data\<close> and returns; no header, sink or app line is
  printed and no read is made that could raise.
\<close>

theorem too_small:
  "length data < 32 \<Longrightarrow>
     try_body clock data = ([TooSmall], Inr ()) \<and>
     parse_shared_memory clock data = [TooSmall] \<and>
     fixed_text (TooSmall :: 'dt line) = Some ''File too small to contain valid data''"
  by (simp add: parse_shared_memory_def try_body_def emit_simps finish_def)

theorem too_small_witness:
  "length (replicate 31 (0 :: byte)) < 32 \<and>
   parse_shared_memory utc_fromtimestamp (replicate 31 0) = [TooSmall]"
  using too_small [of "replicate 31 0" utc_fromtimestamp] by simp

text \<open>
  C5. The string helper: with the cursor at or past the end of the buffer it returns
  \<open>None\<close>; with fewer than \<open>L\<close> bytes after the length byte \<open>L\<close> it returns \<open>None\<close>;
  a length byte \<open>0\<close> in bounds gives the empty string and moves the cursor by one; in
  every other case it decodes the \<open>L\<close> bytes after the length byte and moves the cursor
  by \<open>1 + L\<close>.
\<close>

theorem read_string_contract:
  "(length data \<le> c \<longrightarrow> read_string data c = Inr (None, c)) \<and>
   (c < length data \<and> length data < c + 1 + unat (data ! c) \<longrightarrow>
      read_string data c = Inr (None, c + 1)) \<and>
   (c < length data \<and> data ! c = 0 \<longrightarrow> read_string data c = Inr (Some [], c + 1)) \<and>
   (c < length data \<and> c + 1 + unat (data ! c) \<le> length data \<longrightarrow>
      read_string data c =
        Inr (Some (decode_utf8 Ignore (take (unat (data ! c)) (drop (c + 1) data))),
             c + 1 + unat (data ! c)))"
  by (simp add: read_string_cases bytes_slice_def)

theorem read_string_contract_witness:
  "length [2, 0x41, 0x42, 0, 5, 0x41 :: byte] \<le> 6 \<and>
   read_string [2, 0x41, 0x42, 0, 5, 0x41] 6 = Inr (None, 6) \<and>
   read_string [2, 0x41, 0x42, 0, 5, 0x41] 4 = Inr (None, 5) \<and>
   read_string [2, 0x41, 0x42, 0, 5, 0x41] 3 = Inr (Some [], 4) \<and>
   read_string [2, 0x41, 0x42, 0, 5, 0x41] 0 = Inr (Some [0x41, 0x42], 3)"
  using read_string_contract [of "[2, 0x41, 0x42, 0, 5, 0x41]" 6]
    read_string_contract [of "[2, 0x41, 0x42, 0, 5, 0x41]" 4]
    read_string_contract [of "[2, 0x41, 0x42, 0, 5, 0x41]" 3]
    read_string_contract [of "[2, 0x41, 0x42, 0, 5, 0x41]" 0]
  by (simp add: utf8_step_def)

text \<open>
  C6 (amended). A string field whose payload is not valid UTF-8 never makes the helper
  raise or fail: with the length byte in bounds and \<open>L\<close> bytes after it, the helper
  returns a string and moves the cursor past all \<open>L\<close> payload bytes. Malformed bytes
  are dropped, not replaced, and everything well formed around them is kept: decoding
  starts afresh at every byte that is not a continuation byte, and a byte followed only
  by continuation bytes gives the one scalar value whose encoding it begins with, when
  there is one, and nothing otherwise.
\<close>

theorem lenient_decoding:
  "(c < length data \<and> c + 1 + unat (data ! c) \<le> length data \<longrightarrow>
      read_string data c =
        Inr (Some (decode_utf8 Ignore (bytes_slice data (c + 1) (c + 1 + unat (data ! c)))),
             c + 1 + unat (data ! c))) \<and>
   (\<not> is_cont x \<longrightarrow>
      decode_utf8 Ignore (xs @ x # rest) = decode_utf8 Ignore xs @ decode_utf8 Ignore (x # rest)) \<and>
   (scalar cp \<and> list_all is_cont cs \<longrightarrow> decode_utf8 Ignore (encode_cp cp @ cs) = [cp]) \<and>
   (list_all is_cont ds \<longrightarrow>
      decode_utf8 Ignore (b # ds) = []
      \<or> (\<exists>cp' ds'. scalar cp' \<and> b # ds = encode_cp cp' @ ds'
            \<and> decode_utf8 Ignore (b # ds) = [cp']))"
  using decode_restart [of x Ignore xs rest] decode_kept [of cp cs] decode_chunk [of ds b]
  by (simp add: read_string_cases)

theorem lenient_decoding_witness:
  "0 < length [5, 0x58, 0xE2, 0x82, 0x41, 0x42 :: byte] \<and>
   0 + 1 + unat ([5, 0x58, 0xE2, 0x82, 0x41, 0x42 :: byte] ! 0) \<le>
     length [5, 0x58, 0xE2, 0x82, 0x41, 0x42 :: byte] \<and>
   read_string [5, 0x58, 0xE2, 0x82, 0x41, 0x42] 0 = Inr (Some [0x58, 0x41, 0x42], 6) \<and>
   \<not> is_cont 0x41 \<and>
   decode_utf8 Ignore ([0x58, 0xE2, 0x82] @ 0x41 # [0x42]) =
     decode_utf8 Ignore [0x58, 0xE2, 0x82] @ decode_utf8 Ignore [0x41, 0x42] \<and>
   scalar 0x20AC \<and> list_all is_cont [0x80] \<and>
   decode_utf8 Ignore (encode_cp 0x20AC @ [0x80]) = [0x20AC] \<and>
   list_all is_cont [0x82] \<and> decode_utf8 Ignore [0xE2, 0x82] = []"
  using lenient_decoding [of 0 "[5, 0x58, 0xE2, 0x82, 0x41, 0x42]" "0x41" "[0x58, 0xE2, 0x82]"
      "[0x42]" "0x20AC" "[0x80]" "[0x82]" "0xE2"]
  by (simp add: utf8_step_def bytes_slice_def scalar_def is_cont_def encode_cp_def)

theorem lenient_decoding_counterexample:
  "read_string [1, 0xFF] 0 = Inr (Some [], 2) \<and> decode_utf8 Replace [0xFF] = [0xFFFD]"
  by (simp add: read_string_cases bytes_slice_def utf8_step_def)

text \<open>
  C7 (amended). For a buffer of at least 32 bytes whose header timestamp converts without
  raising: with fewer than 4 bytes at offset 32 the run prints the header and
  \<open>No sink data found\<close> and returns, the app section never entered; and when, after the
  sink loop, fewer than 4 bytes are left at the cursor, the run prints the header, the
  sink heading, the sinks parsed, a blank line and \<open>No app data found\<close> and returns,
  with no app line.
\<close>

theorem missing_counts:
  "(32 \<le> length data \<and> length data < 36
      \<and> clock (le_nat (bytes_slice data 12 20)) = Inr (dt :: 'dt) \<longrightarrow>
      parse_shared_memory clock data =
        [Title, Rule, Version (le_nat (bytes_slice data 0 4)),
         Generation (le_nat (bytes_slice data 4 12)), Timestamp dt, Blank, NoSinkData]) \<and>
   (36 \<le> length data \<and> clock (le_nat (bytes_slice data 12 20)) = Inr dt
      \<and> (sink_loop data (le_nat (bytes_slice data 32 36)) 36 :: ('dt, nat) run) = (ls, Inr c')
      \<and> length data < c' + 4 \<longrightarrow>
      parse_shared_memory clock data =
        [Title, Rule, Version (le_nat (bytes_slice data 0 4)),
         Generation (le_nat (bytes_slice data 4 12)), Timestamp dt, Blank,
         SinksHeader (le_nat (bytes_slice data 32 36))] @ ls @ [Blank, NoAppData]
      \<and> list_all is_sink_line ls) \<and>
   fixed_text (NoSinkData :: 'dt line) = Some ''No sink data found'' \<and>
   fixed_text (NoAppData :: 'dt line) = Some ''No app data found''"
proof -
  have "list_all is_sink_line ls"
    if "(sink_loop data (le_nat (bytes_slice data 32 36)) 36 :: ('dt, nat) run) = (ls, Inr c')"
    using sink_loop_lines [of data "le_nat (bytes_slice data 32 36)" 36, where 'dt = 'dt] that
    by simp
  then show ?thesis
    using parse_no_sink_count [of data clock dt] parse_no_app_count [of data clock dt ls c']
    by simp
qed

theorem missing_counts_witness:
  "32 \<le> length (encode_header example_header) \<and>
   length (encode_header example_header) < 36 \<and>
   parse_shared_memory utc_fromtimestamp (encode_header example_header) =
     [Title, Rule, Version 1, Generation 42, Timestamp 1700000000000, Blank, NoSinkData] \<and>
   36 \<le> length (encode_header example_header @ pack_I 1 @ encode_sinks [example_sink]) \<and>
   (sink_loop (encode_header example_header @ pack_I 1 @ encode_sinks [example_sink]) 1 36
      :: (nat, nat) run) = ([sink_line example_sink], Inr 54) \<and>
   length (encode_header example_header @ pack_I 1 @ encode_sinks [example_sink]) < 54 + 4 \<and>
   parse_shared_memory utc_fromtimestamp
     (encode_header example_header @ pack_I 1 @ encode_sinks [example_sink]) =
     [Title, Rule, Version 1, Generation 42, Timestamp 1700000000000, Blank, SinksHeader 1,
      SinkLine [0x53, 0x70, 0x65, 0x61, 0x6B, 0x65, 0x72, 0x73] 7 0x3F400000 False,
      Blank, NoAppData]"
proof -
  let ?a = "encode_header example_header"
  let ?b = "encode_header example_header @ pack_I 1 @ encode_sinks [example_sink]"
  have clk: "utc_fromtimestamp 1700000000000 = Inr 1700000000000"
    by (simp add: utc_fromtimestamp_def)
  have a: "parse_shared_memory utc_fromtimestamp ?a =
      [Title, Rule, Version 1, Generation 42, Timestamp 1700000000000, Blank, NoSinkData]"
    using missing_counts [where clock = utc_fromtimestamp and data = ?a
        and dt = 1700000000000]
    unfolding header_only_example using clk by simp
  have b: "parse_shared_memory utc_fromtimestamp ?b =
      [Title, Rule, Version 1, Generation 42, Timestamp 1700000000000, Blank, SinksHeader 1]
      @ [sink_line example_sink] @ [Blank, NoAppData]"
    using missing_counts [where clock = utc_fromtimestamp and data = ?b
        and dt = 1700000000000 and ls = "[sink_line example_sink]" and c' = 54]
    unfolding sinks_only_example using clk by simp
  show ?thesis
    unfolding a b header_only_example sinks_only_example by (simp add: line_examples)
qed

theorem missing_counts_counterexample:
  "32 \<le> length (encode_header late_header) \<and> length (encode_header late_header) < 36 \<and>
   parse_shared_memory utc_fromtimestamp (encode_header late_header) =
     [Title, Rule, Version 1, Generation 42, ErrorLine ValueError]"
proof -
  have "32 \<le> length (encode_header late_header)" by (simp add: header_only_example)
  from parse_raises [where clock = utc_fromtimestamp, OF this header_only_example(8)]
  show ?thesis unfolding header_only_example by simp
qed

text \<open>
  C8 (amended). A buffer that ends right after the sink count (36 bytes) with a count of
  3, whose timestamp converts: the run prints the header and the heading for 3 sinks and
  no sink line, the loop stopping silently at its first iteration; then the app section
  is entered, finds no count at the cursor, prints \<open>No app data found\<close> and returns.
  \<open>No sink data found\<close> is not printed.
\<close>

theorem count_without_records:
  "length data = 36 \<Longrightarrow> le_nat (bytes_slice data 32 36) = 3 \<Longrightarrow>
   clock (le_nat (bytes_slice data 12 20)) = Inr dt \<Longrightarrow>
     parse_shared_memory clock data =
       [Title, Rule, Version (le_nat (bytes_slice data 0 4)),
        Generation (le_nat (bytes_slice data 4 12)), Timestamp dt, Blank,
        SinksHeader 3, Blank, NoAppData]"
  using parse_count_only [of data clock dt] by simp

theorem count_without_records_witness:
  "length (encode_header example_header @ pack_I 3) = 36 \<and>
   le_nat (bytes_slice (encode_header example_header @ pack_I 3) 32 36) = 3 \<and>
   utc_fromtimestamp (le_nat (bytes_slice (encode_header example_header @ pack_I 3) 12 20))
     = Inr 1700000000000 \<and>
   parse_shared_memory utc_fromtimestamp (encode_header example_header @ pack_I 3) =
     [Title, Rule, Version 1, Generation 42, Timestamp 1700000000000, Blank,
      SinksHeader 3, Blank, NoAppData]"
proof -
  let ?d = "encode_header example_header @ pack_I 3"
  have clk: "utc_fromtimestamp (le_nat (bytes_slice ?d 12 20)) = Inr 1700000000000"
    unfolding count_only_example by (simp add: utc_fromtimestamp_def)
  from count_without_records [where clock = utc_fromtimestamp, OF count_only_example(1,5) clk]
  have "parse_shared_memory utc_fromtimestamp ?d =
     [Title, Rule, Version 1, Generation 42, Timestamp 1700000000000, Blank,
      SinksHeader 3, Blank, NoAppData]"
    unfolding count_only_example .
  with clk count_only_example(1,5) show ?thesis by blast
qed

theorem count_without_records_counterexample:
  "NoAppData \<in> set (parse_shared_memory utc_fromtimestamp
      (encode_header example_header @ pack_I 3)) \<and>
   NoSinkData \<notin> set (parse_shared_memory utc_fromtimestamp
      (encode_header example_header @ pack_I 3))"
proof -
  let ?d = "encode_header example_header @ pack_I 3"
  have clk: "utc_fromtimestamp (le_nat (bytes_slice ?d 12 20)) = Inr 1700000000000"
    unfolding count_only_example by (simp add: utc_fromtimestamp_def)
  from parse_count_only [where clock = utc_fromtimestamp, OF count_only_example(1) clk]
  have "parse_shared_memory utc_fromtimestamp ?d =
     [Title, Rule, Version 1, Generation 42, Timestamp 1700000000000, Blank,
      SinksHeader 3, Blank, NoAppData]"
    unfolding count_only_example .
  then show ?thesis by simp
qed

text \<open>
  C9 (amended). When the app loop finishes, by exhausting its count or by a record cut
  short, the run prints a blank line and \<open>Total size: len(data) bytes\<close> and ends:
  the output is the header, the sink heading and sink lines, a blank line, the app heading
  and app lines, a blank line and the total size, whatever cursor the loops reached. No
  \<open>Truncated\<close> or \<open>Complete\<close> status and no consumed length is printed. On a buffer
  built exactly per the layout the cursor after the app loop equals the buffer length.
\<close>

theorem final_report:
  "(36 \<le> length data \<and> clock (le_nat (bytes_slice data 12 20)) = Inr (dt :: 'dt)
      \<and> (sink_loop data (le_nat (bytes_slice data 32 36)) 36 :: ('dt, nat) run) = (ls, Inr cs)
      \<and> cs + 4 \<le> length data
      \<and> (app_loop data (le_nat (bytes_slice data cs (cs + 4))) (cs + 4) :: ('dt, nat) run)
           = (ls', Inr ca) \<longrightarrow>
      parse_shared_memory clock data =
        [Title, Rule, Version (le_nat (bytes_slice data 0 4)),
         Generation (le_nat (bytes_slice data 4 12)), Timestamp dt, Blank,
         SinksHeader (le_nat (bytes_slice data 32 36))] @ ls
        @ [Blank, AppsHeader (le_nat (bytes_slice data cs (cs + 4)))] @ ls'
        @ [Blank, TotalSize (length data)]) \<and>
   (wf_snapshot h sinks apps \<longrightarrow>
      (app_loop (encode_snapshot h sinks apps) (length apps)
         (40 + length (encode_sinks sinks)) :: ('dt, nat) run)
      = (map app_line apps, Inr (length (encode_snapshot h sinks apps))))"
  using parse_both_loops [of data clock dt ls cs ls' ca]
    app_loop_clean [of h sinks apps, where 'dt = 'dt]
  by simp

theorem final_report_witness:
  "36 \<le> length (encode_header example_header @ pack_I 0 @ pack_I 2 @ encode_apps [empty_app]
      @ [5, 0x41]) \<and>
   (app_loop (encode_header example_header @ pack_I 0 @ pack_I 2 @ encode_apps [empty_app]
      @ [5, 0x41]) 2 40 :: (nat, nat) run) = ([app_line empty_app], Inr 44) \<and>
   parse_shared_memory utc_fromtimestamp
     (encode_header example_header @ pack_I 0 @ pack_I 2 @ encode_apps [empty_app]
      @ [5, 0x41]) =
     [Title, Rule, Version 1, Generation 42, Timestamp 1700000000000, Blank, SinksHeader 0,
      Blank, AppsHeader 2, AppLine [] [] False, Blank, TotalSize 45] \<and>
   wf_snapshot example_header [example_sink] [example_app] \<and>
   (app_loop (encode_snapshot example_header [example_sink] [example_app]) 1 58
      :: (nat, nat) run) = ([app_line example_app], Inr 76)"
proof -
  let ?d = "encode_header example_header @ pack_I 0 @ pack_I 2 @ encode_apps [empty_app]
      @ [5, 0x41]"
  note f = cut_app_example [OF disjI1 [OF refl]]
  have clk: "utc_fromtimestamp (le_nat (bytes_slice ?d 12 20)) = Inr 1700000000000"
    unfolding f by (simp add: utc_fromtimestamp_def)
  have l: "(sink_loop ?d (le_nat (bytes_slice ?d 32 36)) 36 :: (nat, nat) run) = ([], Inr 36)"
    unfolding f by simp
  have a: "(app_loop ?d (le_nat (bytes_slice ?d 36 (36 + 4))) (36 + 4) :: (nat, nat) run)
      = ([app_line empty_app], Inr 44)"
    using cut_app_loops(1) by (simp add: f(6) del: app_loop.simps)
  have len: "36 \<le> length ?d" "36 + 4 \<le> length ?d" unfolding f by simp_all
  have wf: "wf_snapshot example_header [example_sink] [example_app]"
    by (simp add: wf_snapshot_def wf_examples)
  have n: "40 + length (encode_sinks [example_sink]) = 58"
    "length (encode_snapshot example_header [example_sink] [example_app]) = 76"
    by (simp_all add: encode_snapshot_def length_encode_header wf_examples length_pack
        encode_sinks_def encode_apps_def length_examples)
  note t = final_report [where clock = utc_fromtimestamp and data = ?d and dt = 1700000000000
      and ls = "[]" and cs = 36 and ls' = "[app_line empty_app]" and ca = 44
      and h = example_header and sinks = "[example_sink]" and apps = "[example_app]"]
  have p: "parse_shared_memory utc_fromtimestamp ?d =
     [Title, Rule, Version 1, Generation 42, Timestamp 1700000000000, Blank, SinksHeader 0,
      Blank, AppsHeader 2, AppLine [] [] False, Blank, TotalSize 45]"
    using t [unfolded f(1-6)] len [unfolded f(1-6)] clk [unfolded f(1-6)] l [unfolded f(1-6)]
      a [unfolded f(1-6)]
    by (simp add: line_examples f(6) del: app_loop.simps)
  have q: "(app_loop (encode_snapshot example_header [example_sink] [example_app]) 1 58
      :: (nat, nat) run) = ([app_line example_app], Inr 76)"
    using t wf unfolding n by (simp del: app_loop.simps)
  show ?thesis using p q wf cut_app_loops(1) len by blast
qed

theorem final_report_counterexample:
  "parse_shared_memory utc_fromtimestamp
     (encode_header example_header @ pack_I 0 @ pack_I 2 @ encode_apps [empty_app]
      @ [5, 0x41]) =
     [Title, Rule, Version 1, Generation 42, Timestamp 1700000000000, Blank, SinksHeader 0,
      Blank, AppsHeader 2, AppLine [] [] False, Blank, TotalSize 45] \<and>
   parse_shared_memory utc_fromtimestamp
     (encode_header example_header @ pack_I 0 @ pack_I 2 @ encode_apps [empty_app]
      @ [1, 0x41]) =
     [Title, Rule, Version 1, Generation 42, Timestamp 1700000000000, Blank, SinksHeader 0,
      Blank, AppsHeader 2, AppLine [] [] False, Blank, TotalSize 45] \<and>
   snd (app_loop (encode_header example_header @ pack_I 0 @ pack_I 2 @ encode_apps [empty_app]
      @ [5, 0x41]) 2 40 :: (nat, nat) run) = Inr 44 \<and>
   snd (app_loop (encode_header example_header @ pack_I 0 @ pack_I 2 @ encode_apps [empty_app]
      @ [1, 0x41]) 2 40 :: (nat, nat) run) = Inr 45"
  using cut_app_parse [OF _ cut_app_loops(1)] cut_app_parse [OF _ cut_app_loops(2)]
  by (simp add: cut_app_loops line_examples del: app_loop.simps)

text \<open>
  C10. When the conversion of the header's timestamp raises, a buffer of at least 32
  bytes, also one that holds complete sink and app records, prints the title, the rule,
  the version and the generation and then only the line of the exception handler: no
  sink line and no app line.
\<close>

theorem timestamp_failure:
  "32 \<le> length data \<Longrightarrow> clock (le_nat (bytes_slice data 12 20)) = Inl e \<Longrightarrow>
     parse_shared_memory clock data =
       [Title, Rule, Version (le_nat (bytes_slice data 0 4)),
        Generation (le_nat (bytes_slice data 4 12)), ErrorLine e]"
  by (rule parse_raises)

theorem timestamp_failure_witness:
  "wf_snapshot late_header [example_sink] [example_app] \<and>
   32 \<le> length (encode_snapshot late_header [example_sink] [example_app]) \<and>
   utc_fromtimestamp
     (le_nat (bytes_slice (encode_snapshot late_header [example_sink] [example_app]) 12 20))
     = Inl ValueError \<and>
   parse_shared_memory utc_fromtimestamp
     (encode_snapshot late_header [example_sink] [example_app]) =
     [Title, Rule, Version 1, Generation 42, ErrorLine ValueError]"
  using timestamp_failure [of "encode_snapshot late_header [example_sink] [example_app]"
      utc_fromtimestamp ValueError]
  by (simp add: late_snapshot wf_snapshot_def wf_examples)

end
